theory Spec2Isabelle
  imports Complex_Main "HOL-Library.Multiset" "HOL-Library.Log_Nat"
begin

section \<open>Python values used by database_creator.py\<close>

text \<open>
  The exceptions the modelled code can raise. A function that can raise returns
  \<open>py_error + 'a\<close>, with \<open>Inl\<close> for the exception.
\<close>

datatype py_error =
  IndexError | ValueError | KeyError | StopIteration | ZeroDivisionError | OverflowError

subsection \<open>Strings\<close>

text \<open>
  FEN text, corpus keys and board strings are ASCII, so a Python \<open>str\<close> is a
  \<open>string\<close> here and \<open>str.swapcase\<close> exchanges \<open>A..Z\<close> with \<open>a..z\<close> and
  leaves every other character alone.
\<close>

definition swapcase_char :: "char \<Rightarrow> char" where
  "swapcase_char c =
     (let n = (of_char c :: nat) in
      if 65 \<le> n \<and> n \<le> 90 then char_of (n + 32)
      else if 97 \<le> n \<and> n \<le> 122 then char_of (n - 32)
      else c)"

definition swapcase :: "string \<Rightarrow> string" where
  "swapcase s = map swapcase_char s"

text \<open>\<open>sep.join(xs)\<close>.\<close>

fun join :: "string \<Rightarrow> string list \<Rightarrow> string" where
  "join sep [] = []"
| "join sep [x] = x"
| "join sep (x # y # ys) = x @ sep @ join sep (y # ys)"

text \<open>
  \<open>s.split(sep)\<close> for a one-character separator: every occurrence of the separator
  ends a piece, empty pieces are kept, and the empty string gives one empty piece.
  The first argument of \<open>split_acc\<close> is the piece read so far.
\<close>

fun split_acc :: "char \<Rightarrow> string \<Rightarrow> string \<Rightarrow> string list" where
  "split_acc sep w [] = [w]"
| "split_acc sep w (c # cs) =
     (if c = sep then w # split_acc sep [] cs else split_acc sep (w @ [c]) cs)"

definition split_on :: "char \<Rightarrow> string \<Rightarrow> string list" where
  "split_on sep s = split_acc sep [] s"

text \<open>
  \<open>s.split()\<close> with no argument: pieces are separated by runs of white space, and no
  piece is empty. The ASCII white space characters of Python are the codes 9 to 13 and
  28 to 32.
\<close>

definition is_space :: "char \<Rightarrow> bool" where
  "is_space c = (let n = (of_char c :: nat) in (9 \<le> n \<and> n \<le> 13) \<or> (28 \<le> n \<and> n \<le> 32))"

fun words_acc :: "string \<Rightarrow> string \<Rightarrow> string list" where
  "words_acc w [] = (if w = [] then [] else [w])"
| "words_acc w (c # cs) =
     (if is_space c then (if w = [] then words_acc [] cs else w # words_acc [] cs)
      else words_acc (w @ [c]) cs)"

definition split_ws :: "string \<Rightarrow> string list" where
  "split_ws s = words_acc [] s"

text \<open>\<open>int(c)\<close> for a one-character string and \<open>str(k)\<close> for \<open>0 \<le> k \<le> 9\<close>.\<close>

definition is_digit :: "char \<Rightarrow> bool" where
  "is_digit c = (48 \<le> (of_char c :: nat) \<and> (of_char c :: nat) \<le> 57)"

definition int_of_char :: "char \<Rightarrow> py_error + nat" where
  "int_of_char c = (if is_digit c then Inr (of_char c - 48) else Inl ValueError)"

definition str_of_digit :: "nat \<Rightarrow> string" where
  "str_of_digit k = [char_of (48 + k)]"

text \<open>
  Running a function that can raise over a list, in order, stopping at the first
  exception.
\<close>

fun map_raise :: "('a \<Rightarrow> py_error + 'c) \<Rightarrow> 'a list \<Rightarrow> py_error + 'c list" where
  "map_raise f [] = Inr []"
| "map_raise f (x # xs) =
     (case f x of
        Inl err \<Rightarrow> Inl err
      | Inr y \<Rightarrow> (case map_raise f xs of Inl err \<Rightarrow> Inl err | Inr ys \<Rightarrow> Inr (y # ys)))"

subsection \<open>Numbers\<close>

text \<open>
  A ratio of the data writer is a Python \<open>int\<close> or a Python \<open>float\<close>; the calls in
  the module pass \<open>[.72, .08, .2]\<close> and \<open>[1]\<close>. A \<open>float\<close> is an IEEE 754 binary64
  number: a finite one is the rational number it denotes (the sign of a zero is
  dropped, since \<open>math.floor\<close> gives 0 for both zeros), and there are the two
  infinities and NaN.
\<close>

datatype py_float = Finite rat | PosInf | NegInf | NaN

datatype py_num = PyInt int | PyFloat py_float

text \<open>
  Rounding a rational number to binary64, to nearest with ties to even. \<open>binade q\<close> is
  the exponent \<open>e\<close> with \<open>2^e \<le> |q| < 2^(e+1)\<close>, for \<open>q\<close> other than 0. The spacing of
  the doubles around \<open>q\<close> is \<open>2^(e - 52)\<close>, and \<open>2^(- 1074)\<close> for the subnormal numbers
  below \<open>2^(- 1022)\<close>; a result of magnitude \<open>2^1024\<close> or more is an infinity. A float
  literal such as \<open>0.7\<close> is \<open>round_double (7 / 10)\<close>.
\<close>

definition binade :: "rat \<Rightarrow> int" where
  "binade q =
     (if 1 \<le> \<bar>q\<bar> then bitlen \<lfloor>\<bar>q\<bar>\<rfloor> - 1 else - bitlen (\<lceil>1 / \<bar>q\<bar>\<rceil> - 1))"

definition round_half_even :: "rat \<Rightarrow> int" where
  "round_half_even x =
     (let n = \<lfloor>x\<rfloor>; r = x - of_int n
      in if r < 1 / 2 then n else if 1 / 2 < r then n + 1 else if even n then n else n + 1)"

definition round_double :: "rat \<Rightarrow> py_float" where
  "round_double q =
     (if q = 0 then Finite 0
      else
        (let ulp = 2 powi (max (binade q) (- 1022) - 52);
             v = of_int (round_half_even (q / ulp)) * ulp
         in if 2 ^ 1024 \<le> \<bar>v\<bar> then (if 0 < q then PosInf else NegInf) else Finite v))"

text \<open>
  \<open>float(n)\<close> for an \<open>int\<close>, as done by \<open>float * int\<close>: OverflowError when the
  number is too large. The product of two floats, which never raises. \<open>math.floor\<close> of a
  float: ValueError on NaN, OverflowError on an infinity.
\<close>

definition float_of_int :: "int \<Rightarrow> py_error + py_float" where
  "float_of_int n =
     (case round_double (of_int n) of
        Finite q \<Rightarrow> Inr (Finite q)
      | other \<Rightarrow> Inl OverflowError)"

fun float_mul :: "py_float \<Rightarrow> py_float \<Rightarrow> py_float" where
  "float_mul (Finite a) (Finite b) = round_double (a * b)"
| "float_mul NaN y = NaN"
| "float_mul x NaN = NaN"
| "float_mul (Finite a) y =
     (if a = 0 then NaN else if (0 < a) = (y = PosInf) then PosInf else NegInf)"
| "float_mul x (Finite b) =
     (if b = 0 then NaN else if (0 < b) = (x = PosInf) then PosInf else NegInf)"
| "float_mul x y = (if x = y then PosInf else NegInf)"

fun math_floor :: "py_float \<Rightarrow> py_error + int" where
  "math_floor (Finite q) = Inr \<lfloor>q\<rfloor>"
| "math_floor NaN = Inl ValueError"
| "math_floor x = Inl OverflowError"

section \<open>The Canonicalizer: black_fen_to_white and make_fen_white\<close>

text \<open>
  Both functions of the source have the same body once the FEN is split into its
  fields. \<open>mirror_rows\<close> is the assignment to \<open>split_fen[0]\<close>, \<open>castling_swap\<close> the one
  to \<open>split_fen[2]\<close>, \<open>ep_mirror\<close> the one to \<open>split_fen[3]\<close>.
\<close>

definition mirror_rows :: "string \<Rightarrow> string" where
  "mirror_rows p = join ''/'' (rev (map swapcase (split_on CHR ''/'' p)))"

definition castling_swap :: "string \<Rightarrow> string" where
  "castling_swap c =
     concat (map (\<lambda>x. if x \<in> set (swapcase c) then [x] else []) ''KQkq-'')"

definition ep_mirror :: "string \<Rightarrow> py_error + string" where
  "ep_mirror e =
     (if e \<noteq> ''-'' then
        (case e of
           [] \<Rightarrow> Inl IndexError
         | [f] \<Rightarrow> Inl IndexError
         | f # r # _ \<Rightarrow>
             (case int_of_char r of
                Inl err \<Rightarrow> Inl err
              | Inr n \<Rightarrow> Inr (f # str_of_digit (9 - n))))
      else Inr e)"

text \<open>
  The four assignments on the list \<open>split_fen\<close>; a list with fewer than four fields
  raises IndexError at one of them.
\<close>

definition mirror_fields :: "string list \<Rightarrow> py_error + string list" where
  "mirror_fields split_fen =
     (case split_fen of
        p # t # c # e # rest \<Rightarrow>
          (case ep_mirror e of
             Inl err \<Rightarrow> Inl err
           | Inr e' \<Rightarrow> Inr (mirror_rows p # ''w'' # castling_swap c # e' # rest))
      | _ \<Rightarrow> Inl IndexError)"

text \<open>
  \<open>black_fen_to_white\<close> reads \<open>the_board.fen()\<close>; the FEN text is its argument here.
\<close>

definition black_fen_to_white :: "string \<Rightarrow> py_error + string" where
  "black_fen_to_white fen =
     (case mirror_fields (split_ws fen) of
        Inl err \<Rightarrow> Inl err
      | Inr split_fen \<Rightarrow> Inr (join '','' split_fen))"

definition make_fen_white :: "string \<Rightarrow> py_error + string" where
  "make_fen_white fen =
     (case split_ws fen of
        a # t # rest \<Rightarrow>
          (if t = ''w'' then Inr fen
           else (case mirror_fields (a # t # rest) of
                   Inl err \<Rightarrow> Inl err
                 | Inr split_fen \<Rightarrow> Inr (join '','' split_fen)))
      | _ \<Rightarrow> Inl IndexError)"

text \<open>
  Well-formed fields. The castling field of a FEN lists the available castlings in the
  order \<open>K\<close>, \<open>Q\<close>, \<open>k\<close>, \<open>q\<close>, each at most once, or is \<open>-\<close>; the en-passant field
  is \<open>-\<close> or a file letter followed by a rank digit.
\<close>

definition castling_in_order :: "string \<Rightarrow> bool" where
  "castling_in_order c = (c = filter (\<lambda>x. x \<in> set c) ''KQkq-'')"

definition ep_square :: "string \<Rightarrow> bool" where
  "ep_square e = (e = ''-'' \<or> (length e = 2 \<and> is_digit (e ! 1)))"

text \<open>
  The castling field as the specification words it: the characters of \<open>KQkq-\<close> that
  occur in the original field when case is ignored.
\<close>

definition spec_castling_case_insensitive :: "string \<Rightarrow> string" where
  "spec_castling_case_insensitive c =
     filter (\<lambda>x. x \<in> set c \<or> swapcase_char x \<in> set c) ''KQkq-''"

section \<open>Filters\<close>

text \<open>
  \<open>n_man_filter_creator(n)\<close>: the returned filter walks the key, counts the piece
  letters and returns inside the loop. The second argument of \<open>n_man_loop\<close> is
  \<open>counter\<close>.
\<close>

fun n_man_loop :: "int \<Rightarrow> int \<Rightarrow> string \<Rightarrow> bool" where
  "n_man_loop n counter [] = True"
| "n_man_loop n counter (c # cs) =
     (if c \<in> set ''KQRBNPkqrbnp''
      then (if counter + 1 > n then False else n_man_loop n (counter + 1) cs)
      else n_man_loop n counter cs)"

definition n_man_filter_creator :: "int \<Rightarrow> string \<Rightarrow> 'd \<Rightarrow> bool" where
  "n_man_filter_creator n = (\<lambda>str data. n_man_loop n 0 str)"

text \<open>The number of piece letters of a key, which the docstring of the filter speaks of.\<close>

definition piece_count :: "string \<Rightarrow> nat" where
  "piece_count s = length (filter (\<lambda>c. c \<in> set ''KQRBNPkqrbnp'') s)"

section \<open>The board-string side switcher of the data writer\<close>

text \<open>
  \<open>the_str[8 * j: 8 * (j + 1)]\<close> is a Python slice: it never raises and is cut at the
  end of the string.
\<close>

definition rank_row :: "string \<Rightarrow> nat \<Rightarrow> string" where
  "rank_row the_str j = take 8 (drop (8 * j) the_str)"

definition switch_from_blacks_move :: "string \<Rightarrow> string" where
  "switch_from_blacks_move the_str =
     swapcase (concat (rev (map (rank_row the_str) [0..<8])))"

section \<open>The Aggregator: create_database_from_pgn\<close>

text \<open>
  The chess rules engine (python-chess behind \<open>MyBoard\<close>) is outside the repository's
  sources. The code uses four of its capabilities on \<open>the_board\<close>; they are the
  parameters of the model. Type \<open>'b\<close> is the state of a board, \<open>'m\<close> a move.
\<close>

record ('b, 'm) rules_engine =
  board_start :: "'b"
  board_fen :: "'b \<Rightarrow> string"
  board_turn :: "'b \<Rightarrow> bool"
  board_push :: "'b \<Rightarrow> 'm \<Rightarrow> 'b"

text \<open>
  \<open>board_start\<close> is the board of \<open>MyBoard()\<close> and the one \<open>the_board.reset()\<close> gives;
  \<open>board_turn\<close> is true when White is to move.

  Class \<open>BoardInfo\<close>: the dictionary \<open>moves\<close> keeps its keys in insertion order, so it
  is an association list with one pair for each move.
\<close>

datatype 'm BoardInfo = BoardInfo (moves: "('m \<times> nat) list")

fun moves_update :: "'m \<Rightarrow> ('m \<times> nat) list \<Rightarrow> ('m \<times> nat) list" where
  "moves_update move [] = [(move, 1)]"
| "moves_update move ((m, n) # rest) =
     (if m = move then (m, n + 1) # rest else (m, n) # moves_update move rest)"

definition BoardInfo_update :: "'m BoardInfo \<Rightarrow> 'm \<Rightarrow> 'm BoardInfo" where
  "BoardInfo_update self move = BoardInfo (moves_update move (moves self))"

definition BoardInfo_init :: "'m \<Rightarrow> 'm BoardInfo" where
  "BoardInfo_init move = BoardInfo_update (BoardInfo []) move"

text \<open>
  The dictionary \<open>configs\<close>, in insertion order. \<open>configs_record\<close> is the
  \<open>if configs.get(white_move_string) is None\<close> statement of the loop.
\<close>

type_synonym 'm configs = "(string \<times> 'm BoardInfo) list"

fun configs_record :: "string \<Rightarrow> 'm \<Rightarrow> 'm configs \<Rightarrow> 'm configs" where
  "configs_record key move [] = [(key, BoardInfo_init move)]"
| "configs_record key move ((k, d) # rest) =
     (if k = key then (k, BoardInfo_update d move) # rest
      else (k, d) # configs_record key move rest)"

text \<open>
  A chain of filters: the loop over the filters with its \<open>break\<close> at the first one
  that returns true.
\<close>

fun filter_matches :: "('x \<Rightarrow> 'y \<Rightarrow> bool) list \<Rightarrow> 'x \<Rightarrow> 'y \<Rightarrow> bool" where
  "filter_matches [] x y = False"
| "filter_matches (f # fs) x y = (if f x y then True else filter_matches fs x y)"

definition white_move_string ::
  "('b, 'm) rules_engine \<Rightarrow> bool \<Rightarrow> 'b \<Rightarrow> py_error + string" where
  "white_move_string E switch_black_move_to_white the_board =
     (if switch_black_move_to_white \<and> \<not> board_turn E the_board
      then black_fen_to_white (board_fen E the_board)
      else Inr (join '','' (split_ws (board_fen E the_board))))"

definition stored_elements :: "nat list \<Rightarrow> string \<Rightarrow> string" where
  "stored_elements fen_elements_stored s =
     join '',''
       (map snd (filter (\<lambda>(index, info). index \<in> set fen_elements_stored)
                        (enumerate 0 (split_on CHR '','' s))))"

text \<open>One turn of the loop over \<open>cur_game.main_line()\<close>.\<close>

definition visit_move ::
  "('b, 'm) rules_engine \<Rightarrow> ('b \<Rightarrow> 'm \<Rightarrow> bool) list \<Rightarrow> bool \<Rightarrow> nat list \<Rightarrow>
   'b \<times> 'm configs \<Rightarrow> 'm \<Rightarrow> py_error + 'b \<times> 'm configs" where
  "visit_move E to_collect_filters sw els st move =
     (case st of (the_board, configs) \<Rightarrow>
        (if \<not> filter_matches to_collect_filters the_board move then
           (case white_move_string E sw the_board of
              Inl err \<Rightarrow> Inl err
            | Inr s \<Rightarrow>
                Inr (board_push E the_board move,
                     configs_record (stored_elements els s) move configs))
         else Inr (board_push E the_board move, configs)))"

fun main_line_loop ::
  "('b, 'm) rules_engine \<Rightarrow> ('b \<Rightarrow> 'm \<Rightarrow> bool) list \<Rightarrow> bool \<Rightarrow> nat list \<Rightarrow>
   'm list \<Rightarrow> 'b \<times> 'm configs \<Rightarrow> py_error + 'b \<times> 'm configs" where
  "main_line_loop E F sw els [] st = Inr st"
| "main_line_loop E F sw els (move # rest) st =
     (case visit_move E F sw els st move of
        Inl err \<Rightarrow> Inl err
      | Inr st' \<Rightarrow> main_line_loop E F sw els rest st')"

text \<open>
  The \<open>while not cur_game is None\<close> loop over the games of one file (a game is its main
  line), with \<open>the_board.reset()\<close> after each game, and the loop over the files.
\<close>

fun games_loop ::
  "('b, 'm) rules_engine \<Rightarrow> ('b \<Rightarrow> 'm \<Rightarrow> bool) list \<Rightarrow> bool \<Rightarrow> nat list \<Rightarrow>
   'm list list \<Rightarrow> 'b \<times> 'm configs \<Rightarrow> py_error + 'b \<times> 'm configs" where
  "games_loop E F sw els [] st = Inr st"
| "games_loop E F sw els (cur_game # rest) st =
     (case main_line_loop E F sw els cur_game st of
        Inl err \<Rightarrow> Inl err
      | Inr (the_board, configs) \<Rightarrow> games_loop E F sw els rest (board_start E, configs))"

fun files_loop ::
  "('b, 'm) rules_engine \<Rightarrow> ('b \<Rightarrow> 'm \<Rightarrow> bool) list \<Rightarrow> bool \<Rightarrow> nat list \<Rightarrow>
   'm list list list \<Rightarrow> 'b \<times> 'm configs \<Rightarrow> py_error + 'b \<times> 'm configs" where
  "files_loop E F sw els [] st = Inr st"
| "files_loop E F sw els (pgn_file # rest) st =
     (case games_loop E F sw els pgn_file st of
        Inl err \<Rightarrow> Inl err
      | Inr st' \<Rightarrow> files_loop E F sw els rest st')"

text \<open>The post-collection filters: the keys to delete, then \<open>del configs[cur_str]\<close>.\<close>

definition to_delete ::
  "(string \<Rightarrow> 'm BoardInfo \<Rightarrow> bool) list \<Rightarrow> 'm configs \<Rightarrow> string list" where
  "to_delete post_collection_filters configs =
     map fst (filter (\<lambda>(cur_str, data). filter_matches post_collection_filters cur_str data)
                     configs)"

definition configs_del :: "string \<Rightarrow> 'm configs \<Rightarrow> 'm configs" where
  "configs_del cur_str configs = filter (\<lambda>(k, d). k \<noteq> cur_str) configs"

definition post_collection ::
  "(string \<Rightarrow> 'm BoardInfo \<Rightarrow> bool) list \<Rightarrow> 'm configs \<Rightarrow> 'm configs" where
  "post_collection post_collection_filters configs =
     (if post_collection_filters \<noteq> []
      then fold configs_del (to_delete post_collection_filters configs) configs
      else configs)"

text \<open>
  \<open>create_database_from_pgn\<close> up to the call of the data writer: the result is the
  dictionary the writer receives. A file is the list of its games.
\<close>

definition create_database_from_pgn ::
  "('b, 'm) rules_engine \<Rightarrow> 'm list list list \<Rightarrow> ('b \<Rightarrow> 'm \<Rightarrow> bool) list \<Rightarrow>
   (string \<Rightarrow> 'm BoardInfo \<Rightarrow> bool) list \<Rightarrow> bool \<Rightarrow> nat list \<Rightarrow> py_error + 'm configs" where
  "create_database_from_pgn E filenames to_collect_filters post_collection_filters
       switch_black_move_to_white fen_elements_stored =
     (case files_loop E to_collect_filters switch_black_move_to_white fen_elements_stored
             filenames (board_start E, []) of
        Inl err \<Rightarrow> Inl err
      | Inr (the_board, configs) \<Rightarrow> Inr (post_collection post_collection_filters configs))"

text \<open>
  What the counts of a dictionary are: the count of a move under a key, 0 when the key
  or the move is absent.
\<close>

definition move_count :: "'m configs \<Rightarrow> string \<Rightarrow> 'm \<Rightarrow> nat" where
  "move_count configs key move =
     (case map_of configs key of
        None \<Rightarrow> 0
      | Some d \<Rightarrow> (case map_of (moves d) move of None \<Rightarrow> 0 | Some n \<Rightarrow> n))"

text \<open>
  The walk of one game seen as data. \<open>plies\<close> lists each position of the main line
  with the move played from it; \<open>saved_plies\<close> keeps those no pre-filter vetoes;
  \<open>ply_key\<close> is the key under which a saved ply is counted; \<open>observed\<close> lists the
  (key, move) pairs a game contributes when it starts from the reset board.
\<close>

fun plies :: "('b, 'm) rules_engine \<Rightarrow> 'b \<Rightarrow> 'm list \<Rightarrow> ('b \<times> 'm) list" where
  "plies E b [] = []"
| "plies E b (move # rest) = (b, move) # plies E (board_push E b move) rest"

definition ply_key ::
  "('b, 'm) rules_engine \<Rightarrow> bool \<Rightarrow> nat list \<Rightarrow> 'b \<times> 'm \<Rightarrow> py_error + string \<times> 'm" where
  "ply_key E sw els ply =
     (case white_move_string E sw (fst ply) of
        Inl err \<Rightarrow> Inl err
      | Inr s \<Rightarrow> Inr (stored_elements els s, snd ply))"

definition saved_plies ::
  "('b, 'm) rules_engine \<Rightarrow> ('b \<Rightarrow> 'm \<Rightarrow> bool) list \<Rightarrow> 'b \<Rightarrow> 'm list \<Rightarrow> ('b \<times> 'm) list" where
  "saved_plies E F b game =
     filter (\<lambda>(the_board, move). \<not> filter_matches F the_board move) (plies E b game)"

definition observed ::
  "('b, 'm) rules_engine \<Rightarrow> ('b \<Rightarrow> 'm \<Rightarrow> bool) list \<Rightarrow> bool \<Rightarrow> nat list \<Rightarrow> 'm list \<Rightarrow>
   py_error + (string \<times> 'm) list" where
  "observed E F sw els game =
     map_raise (ply_key E sw els) (saved_plies E F (board_start E) game)"

text \<open>Recording one observed (key, move) pair in the dictionary.\<close>

definition record_pair :: "string \<times> 'm \<Rightarrow> 'm configs \<Rightarrow> 'm configs" where
  "record_pair obs configs = configs_record (fst obs) (snd obs) configs"

text \<open>Every stored count is positive.\<close>

definition positive_counts :: "'m configs \<Rightarrow> bool" where
  "positive_counts cfg =
     (\<forall>k d m n. map_of cfg k = Some d \<longrightarrow> map_of (moves d) m = Some n \<longrightarrow> 0 < n)"

text \<open>
  A small rules engine to run the model on: a board is the list of the moves played,
  a move is a number, the sides alternate, and the second row of the piece placement
  shows a \<open>P\<close> for an even move and an \<open>n\<close> for an odd one, then a \<open>K\<close>.
\<close>

definition toy_fen :: "nat list \<Rightarrow> string" where
  "toy_fen b =
     ''8/'' @ map (\<lambda>m. if even m then CHR ''P'' else CHR ''n'') b @ ''K''
       @ (if even (length b) then '' w'' else '' b'') @ '' Kq - 0 1''"

definition toy_engine :: "(nat list, nat) rules_engine" where
  "toy_engine =
     \<lparr>board_start = [], board_fen = toy_fen, board_turn = (\<lambda>b. even (length b)),
      board_push = (\<lambda>b m. b @ [m])\<rparr>"

text \<open>
  A post-collection filter a caller can pass: it is true when the first key of
  \<open>data.moves\<close>, in the insertion order of the dictionary, is the given move
  (\<open>lambda cur_str, data: next(iter(data.moves)) == move\<close>).
\<close>

definition first_move_is :: "'m \<Rightarrow> string \<Rightarrow> 'm BoardInfo \<Rightarrow> bool" where
  "first_move_is move cur_str data =
     (case moves data of [] \<Rightarrow> False | (x, n) # rest \<Rightarrow> x = move)"

section \<open>The Splitter: data_writer_creator\<close>

text \<open>
  What the writer is created with, \<open>file_ratios\<close> and \<open>for_deep_pink_loss\<close>
  apart. \<open>new_board\<close> is
  \<open>MyBoard(line_to_fen_fn(cur_str))\<close>; \<open>temp_board.push(move)\<close> followed by
  \<open>temp_board.pop()\<close> leaves the board as it was, so the pushed board is a value and
  \<open>temp_board\<close> itself never changes. A generator is the list of the moves it yields.
\<close>

record ('b, 'm) writer_env =
  new_board :: "string \<Rightarrow> 'b"
  push :: "'b \<Rightarrow> 'm \<Rightarrow> 'b"
  board_to_str_fn :: "'b \<Rightarrow> string"
  comparison_move_generator :: "'b \<Rightarrow> 'm BoardInfo \<Rightarrow> 'm list"
  print_frequency :: int

text \<open>\<open>max(cur_data.moves.values())\<close>, which raises ValueError on no values.\<close>

fun py_max :: "nat list \<Rightarrow> py_error + nat" where
  "py_max [] = Inl ValueError"
| "py_max (v # vs) = Inr (fold max vs v)"

definition most_chosen_moves :: "'m BoardInfo \<Rightarrow> py_error + 'm list" where
  "most_chosen_moves cur_data =
     (case py_max (map snd (moves cur_data)) of
        Inl err \<Rightarrow> Inl err
      | Inr max_move_count \<Rightarrow>
          Inr (filter (\<lambda>move. map_of (moves cur_data) move = Some max_move_count)
                      (map fst (moves cur_data))))"

text \<open>
  The branch \<open>if should_get_deep_pink_loss\<close> for one entry. The result lists the
  arguments of the calls of \<open>writer.write\<close>, one call for each comparison move.
\<close>

definition deep_pink_writes ::
  "('b, 'm) writer_env \<Rightarrow> string \<Rightarrow> 'm BoardInfo \<Rightarrow> py_error + string list" where
  "deep_pink_writes W cur_str cur_data =
     (let temp_board = new_board W cur_str in
      case most_chosen_moves cur_data of
        Inl err \<Rightarrow> Inl err
      | Inr chosen \<Rightarrow>
          (let cur_board_rep = board_to_str_fn W temp_board;
               data_strs =
                 map (\<lambda>move. cur_board_rep @
                        switch_from_blacks_move (board_to_str_fn W (push W temp_board move)))
                     chosen
           in Inr (map (\<lambda>move.
                     (let str_to_add =
                            switch_from_blacks_move (board_to_str_fn W (push W temp_board move))
                              @ [CHR 0x0A]
                      in concat (map (\<lambda>x. x @ str_to_add) data_strs)))
                   (comparison_move_generator W temp_board cur_data))))"

definition entry_writes ::
  "('b, 'm) writer_env \<Rightarrow> bool \<Rightarrow> string \<times> 'm BoardInfo \<Rightarrow> py_error + string list" where
  "entry_writes W should_get_deep_pink_loss entry =
     (case entry of (cur_str, cur_data) \<Rightarrow>
        (if should_get_deep_pink_loss then deep_pink_writes W cur_str cur_data
         else Inr [cur_str @ [CHR 0x0A]]))"

text \<open>
  The inner loop \<open>for _ in range(k)\<close>. Each turn first computes
  \<open>cur_entry_num % print_frequency\<close>, which raises ZeroDivisionError when
  \<open>print_frequency\<close> is 0, then takes the next entry of \<open>dict_iterator\<close>, and \<open>next\<close>
  raises StopIteration on an exhausted iterator. The counter \<open>cur_entry_num\<close> only
  decides whether a progress message is printed, so it is left out. The result is what
  was written and the iterator left.
\<close>

fun write_entries ::
  "('e \<Rightarrow> py_error + string list) \<Rightarrow> int \<Rightarrow> nat \<Rightarrow> 'e list \<Rightarrow>
   py_error + string list \<times> 'e list" where
  "write_entries body frequency 0 dict_iterator = Inr ([], dict_iterator)"
| "write_entries body frequency (Suc k) dict_iterator =
     (if frequency = 0 then Inl ZeroDivisionError
      else
        (case dict_iterator of
           [] \<Rightarrow> Inl StopIteration
         | entry # rest \<Rightarrow>
             (case body entry of
                Inl err \<Rightarrow> Inl err
              | Inr ws \<Rightarrow>
                  (case write_entries body frequency k rest of
                     Inl err \<Rightarrow> Inl err
                   | Inr (out, rest') \<Rightarrow> Inr (ws @ out, rest')))))"

text \<open>
  \<open>int(math.floor(ratio * number_of_boards))\<close> as the number of turns of
  \<open>range\<close>: a negative number gives an empty range. With an \<open>int\<close> ratio the product
  is an \<open>int\<close> and \<open>math.floor\<close> returns it.
\<close>

definition slice_size :: "py_num \<Rightarrow> nat \<Rightarrow> py_error + nat" where
  "slice_size ratio number_of_boards =
     (case ratio of
        PyInt r \<Rightarrow> Inr (nat (r * int number_of_boards))
      | PyFloat x \<Rightarrow>
          (case float_of_int (int number_of_boards) of
             Inl err \<Rightarrow> Inl err
           | Inr y \<Rightarrow>
               (case math_floor (float_mul x y) of
                  Inl err \<Rightarrow> Inl err
                | Inr k \<Rightarrow> Inr (nat k))))"

text \<open>The outer loop over \<open>zip(writers, file_ratios, for_deep_pink_loss)\<close>.\<close>

fun destinations_loop ::
  "('b, 'm) writer_env \<Rightarrow> nat \<Rightarrow> ('f \<times> py_num \<times> bool) list \<Rightarrow> 'm configs \<Rightarrow>
   py_error + string list list" where
  "destinations_loop W number_of_boards [] dict_iterator = Inr []"
| "destinations_loop W number_of_boards ((file, ratio, flag) # rest) dict_iterator =
     (case slice_size ratio number_of_boards of
        Inl err \<Rightarrow> Inl err
      | Inr k \<Rightarrow>
          (case write_entries (entry_writes W flag) (print_frequency W) k dict_iterator of
             Inl err \<Rightarrow> Inl err
           | Inr (out, dict_iterator') \<Rightarrow>
               (case destinations_loop W number_of_boards rest dict_iterator' of
                  Inl err \<Rightarrow> Inl err
                | Inr outs \<Rightarrow> Inr (out # outs))))"

text \<open>
  The function \<open>writer\<close>. The result gives, for each zipped destination in order, the
  list of what was written to it.
\<close>

definition writer ::
  "('b, 'm) writer_env \<Rightarrow> py_num list \<Rightarrow> bool list \<Rightarrow> 'm configs \<Rightarrow> 'f list \<Rightarrow>
   py_error + string list list" where
  "writer W file_ratios for_deep_pink_loss dict filenames =
     destinations_loop W (length dict)
       (zip filenames (zip file_ratios for_deep_pink_loss)) dict"

text \<open>The contiguous slices of a list with the given sizes.\<close>

fun slices :: "nat list \<Rightarrow> 'a list \<Rightarrow> 'a list list" where
  "slices [] xs = []"
| "slices (n # ns) xs = take n xs # slices ns (drop n xs)"

text \<open>
  What one entry contributes to its destination when its turn of the loop does not
  raise, the sizes of the slices of a run, and a small writer environment to run the
  model on: a board is a string, shown without its line breaks, a move is a character
  appended to it, and the comparison moves are \<open>p\<close> and \<open>q\<close>. \<open>triplet_record\<close> is
  the line written for one most chosen move and one comparison move.
\<close>

definition entry_output ::
  "('b, 'm) writer_env \<Rightarrow> bool \<Rightarrow> string \<times> 'm BoardInfo \<Rightarrow> string list" where
  "entry_output W flag entry =
     (case entry_writes W flag entry of Inl err \<Rightarrow> [] | Inr ws \<Rightarrow> ws)"

definition slice_sizes :: "nat \<Rightarrow> ('f \<times> py_num \<times> bool) list \<Rightarrow> py_error + nat list" where
  "slice_sizes number_of_boards dests =
     map_raise (\<lambda>(file, ratio, flag). slice_size ratio number_of_boards) dests"

definition toy_writer_env :: "(string, char) writer_env" where
  "toy_writer_env =
     \<lparr>new_board = (\<lambda>cur_str. cur_str), push = (\<lambda>b m. b @ [m]),
      board_to_str_fn = (\<lambda>b. filter (\<lambda>c. c \<noteq> CHR 0x0A) b),
      comparison_move_generator = (\<lambda>b d. ''pq''), print_frequency = 10000\<rparr>"

definition triplet_record :: "('b, 'm) writer_env \<Rightarrow> string \<Rightarrow> 'm \<Rightarrow> 'm \<Rightarrow> string" where
  "triplet_record W cur_str chosen_move comparison_move =
     board_to_str_fn W (new_board W cur_str)
       @ switch_from_blacks_move (board_to_str_fn W (push W (new_board W cur_str) chosen_move))
       @ switch_from_blacks_move
           (board_to_str_fn W (push W (new_board W cur_str) comparison_move))
       @ [CHR 0x0A]"

section \<open>The Scored Child-Position Pipeline\<close>

text \<open>\<open>np.cumsum\<close> and \<open>np.split(ary, indices)\<close> with a list of indices.\<close>

fun cumsum_from :: "nat \<Rightarrow> nat list \<Rightarrow> nat list" where
  "cumsum_from acc [] = []"
| "cumsum_from acc (x # xs) = (acc + x) # cumsum_from (acc + x) xs"

definition cumsum :: "nat list \<Rightarrow> nat list" where
  "cumsum xs = cumsum_from 0 xs"

definition np_split :: "'a list \<Rightarrow> nat list \<Rightarrow> 'a list list" where
  "np_split ary indices =
     map (\<lambda>(st, en). take (en - st) (drop st ary))
         (zip (0 # indices) (indices @ [length ary]))"

text \<open>The slices of \<open>np.split\<close> from a starting offset on, by recursion on the indices.\<close>

fun split_from :: "'a list \<Rightarrow> nat \<Rightarrow> nat list \<Rightarrow> 'a list list" where
  "split_from ary st [] = [take (length ary - st) (drop st ary)]"
| "split_from ary st (i # rest) = take (i - st) (drop st ary) # split_from ary i rest"

text \<open>
  What \<open>generate_database_with_child_values_tf_records\<close> is called with or imports:
  the board functions come from \<open>numba_board\<close>, which is outside the sources, and
  \<open>move_to_str_dict\<close> is the table \<open>generate_move_to_enumeration_dict()\<close> returns,
  applied to a move's pair of squares.
\<close>

record ('b, 'm, 's) scoring_env =
  line_to_fen_fn :: "string \<Rightarrow> string"
  create_board_state_from_fen :: "string \<Rightarrow> 'b"
  generate_legal_moves :: "'b \<Rightarrow> 'm list"
  copy_push :: "'b \<Rightarrow> 'm \<Rightarrow> 'b"
  node_batch_eval_fn :: "'b list \<Rightarrow> 's list"
  move_to_str_dict :: "'m \<Rightarrow> nat option"
  database_board_representation :: "'b \<Rightarrow> string"

text \<open>\<open>char_to_index_dict\<close>: the position of a character in \<open>01KQRBNPCkqrbnpc\<close>.\<close>

fun index_in :: "char \<Rightarrow> string \<Rightarrow> nat option" where
  "index_in c [] = None"
| "index_in c (x # xs) = (if x = c then Some 0 else map_option Suc (index_in c xs))"

definition char_to_index_dict :: "char \<Rightarrow> py_error + nat" where
  "char_to_index_dict c =
     (case index_in c ''01KQRBNPCkqrbnpc'' of None \<Rightarrow> Inl KeyError | Some i \<Rightarrow> Inr i)"

text \<open>
  A \<open>tf.train.SequenceExample\<close> before serialization: the context feature \<open>board\<close> and
  the feature lists \<open>moves\<close> and \<open>move_scores\<close>.
\<close>

datatype 's sequence_example =
  SequenceExample (board: "nat list") (example_moves: "nat list") (move_scores: "'s list")

definition create_serialized_example ::
  "string \<Rightarrow> nat list \<Rightarrow> 's list \<Rightarrow> py_error + 's sequence_example" where
  "create_serialized_example the_str mvs results =
     (case map_raise (\<lambda>j. if j < length the_str then char_to_index_dict (the_str ! j)
                            else Inl IndexError) [0..<64] of
        Inl err \<Rightarrow> Inl err
      | Inr b \<Rightarrow> Inr (SequenceExample b mvs results))"

definition lookup_move :: "('m \<Rightarrow> nat option) \<Rightarrow> 'm \<Rightarrow> py_error + nat" where
  "lookup_move d x = (case d x of None \<Rightarrow> Inl KeyError | Some i \<Rightarrow> Inr i)"

text \<open>
  \<open>lines_to_serialized_example\<close>. \<open>np.concatenate\<close> raises ValueError on an empty list
  of arrays, which is the case of no line.
\<close>

definition lines_to_serialized_example ::
  "('b, 'm, 's) scoring_env \<Rightarrow> string list \<Rightarrow> py_error + 's sequence_example list" where
  "lines_to_serialized_example S lines =
     (case map_raise (\<lambda>line. make_fen_white (line_to_fen_fn S line)) lines of
        Inl err \<Rightarrow> Inl err
      | Inr all_white_fens \<Rightarrow>
          (let boards = map (create_board_state_from_fen S) all_white_fens;
               mvs = map (generate_legal_moves S) boards;
               lengths = cumsum (map length mvs)
           in if boards = [] then Inl ValueError
              else
                (let children = concat (map (\<lambda>(b, m). map (copy_push S b) m) (zip boards mvs));
                     the_results = np_split (node_batch_eval_fn S children) (butlast lengths)
                 in case map_raise (lookup_move (move_to_str_dict S)) (concat mvs) of
                      Inl err \<Rightarrow> Inl err
                    | Inr the_moves \<Rightarrow>
                        map_raise
                          (\<lambda>(b, m, r).
                             create_serialized_example (database_board_representation S b) m r)
                          (zip boards (zip (np_split the_moves (butlast lengths)) the_results)))))"

text \<open>
  The loop over the lines of the input file with \<open>batch_size = 200\<close>: the arguments are
  the batch size, \<open>index\<close>, \<open>lines\<close> and the lines still to read; the result is the
  list of the batches submitted to the executor. Nothing follows the loop but the
  collection of the futures.
\<close>

fun submit_loop :: "nat \<Rightarrow> nat \<Rightarrow> string list \<Rightarrow> string list \<Rightarrow> string list list" where
  "submit_loop batch_size index lines [] = []"
| "submit_loop batch_size index lines (line # rest) =
     (if index mod batch_size = 0 \<and> index \<noteq> 0
      then (lines @ [line]) # submit_loop batch_size (index + 1) [] rest
      else submit_loop batch_size (index + 1) (lines @ [line]) rest)"

text \<open>
  The records written to the output file, batch after batch in the order of
  submission (the order in which the futures complete is not modelled).
\<close>

definition generate_database_with_child_values_tf_records ::
  "('b, 'm, 's) scoring_env \<Rightarrow> string list \<Rightarrow> py_error + 's sequence_example list" where
  "generate_database_with_child_values_tf_records S file_lines =
     (case map_raise (lines_to_serialized_example S) (submit_loop 200 0 [] file_lines) of
        Inl err \<Rightarrow> Inl err
      | Inr written \<Rightarrow> Inr (concat written))"

text \<open>
  Names for what a batch is made of: the board of a line, the number of legal moves of
  each line, and the flat sequence of children handed to the evaluator. A small
  environment to run the model on: a line is its own FEN, a board is its line, the
  first character of a line is the number of its legal moves, a child is the line it
  comes from, every board is shown as 64 zeros, and the evaluator is a parameter.
\<close>

definition line_board :: "('b, 'm, 's) scoring_env \<Rightarrow> string \<Rightarrow> 'b" where
  "line_board S line =
     create_board_state_from_fen S
       (case make_fen_white (line_to_fen_fn S line) of Inl err \<Rightarrow> [] | Inr fen \<Rightarrow> fen)"

definition move_counts :: "('b, 'm, 's) scoring_env \<Rightarrow> string list \<Rightarrow> nat list" where
  "move_counts S lines = map (\<lambda>line. length (generate_legal_moves S (line_board S line))) lines"

definition children_of :: "('b, 'm, 's) scoring_env \<Rightarrow> string list \<Rightarrow> 'b list" where
  "children_of S lines =
     concat (map (\<lambda>line. map (copy_push S (line_board S line))
                              (generate_legal_moves S (line_board S line))) lines)"

definition toy_scoring_env :: "(string list \<Rightarrow> nat list) \<Rightarrow> (string, nat, nat) scoring_env" where
  "toy_scoring_env evaluator =
     \<lparr>line_to_fen_fn = (\<lambda>x. x), create_board_state_from_fen = (\<lambda>fen. fen),
      generate_legal_moves =
        (\<lambda>b. case b of [] \<Rightarrow> [] | c # cs \<Rightarrow> [0..<(of_char c :: nat) - 48]),
      copy_push = (\<lambda>b m. b), node_batch_eval_fn = evaluator,
      move_to_str_dict = (\<lambda>m. Some m),
      database_board_representation = (\<lambda>b. replicate 64 CHR ''0'')\<rparr>"

section \<open>Properties\<close>

lemma swapcase_char_involution: "swapcase_char (swapcase_char c) = c"
  unfolding swapcase_char_def Let_def
  by (auto simp: char_of_def[symmetric])

lemma swapcase_involution: "swapcase (swapcase s) = s"
  by (simp add: swapcase_def swapcase_char_involution comp_def)

lemma swapcase_char_eval:
  "swapcase_char CHR ''K'' = CHR ''k''" "swapcase_char CHR ''Q'' = CHR ''q''"
  "swapcase_char CHR ''R'' = CHR ''r''" "swapcase_char CHR ''B'' = CHR ''b''"
  "swapcase_char CHR ''N'' = CHR ''n''" "swapcase_char CHR ''P'' = CHR ''p''"
  "swapcase_char CHR ''k'' = CHR ''K''" "swapcase_char CHR ''q'' = CHR ''Q''"
  "swapcase_char CHR ''r'' = CHR ''R''" "swapcase_char CHR ''b'' = CHR ''B''"
  "swapcase_char CHR ''n'' = CHR ''N''" "swapcase_char CHR ''p'' = CHR ''P''"
  "swapcase_char CHR ''0'' = CHR ''0''" "swapcase_char CHR ''1'' = CHR ''1''"
  "swapcase_char CHR ''2'' = CHR ''2''" "swapcase_char CHR ''3'' = CHR ''3''"
  "swapcase_char CHR ''4'' = CHR ''4''" "swapcase_char CHR ''5'' = CHR ''5''"
  "swapcase_char CHR ''6'' = CHR ''6''" "swapcase_char CHR ''7'' = CHR ''7''"
  "swapcase_char CHR ''8'' = CHR ''8''" "swapcase_char CHR ''/'' = CHR ''/''"
  "swapcase_char CHR ''-'' = CHR ''-''"
  by code_simp+

lemma str_of_digit_eval:
  "str_of_digit 0 = ''0''" "str_of_digit 1 = ''1''" "str_of_digit 2 = ''2''"
  "str_of_digit 3 = ''3''" "str_of_digit 4 = ''4''" "str_of_digit 5 = ''5''"
  "str_of_digit 6 = ''6''" "str_of_digit 7 = ''7''" "str_of_digit 8 = ''8''"
  "str_of_digit 9 = ''9''"
  by code_simp+

subsection \<open>split and join\<close>

lemma split_acc_not_Nil: "split_acc sep w s \<noteq> []"
  by (induction s arbitrary: w) auto

lemma join_Cons: "join sep (x # xs) = (if xs = [] then x else x @ sep @ join sep xs)"
  by (cases xs) simp_all

lemma join_split_acc: "join [sep] (split_acc sep w s) = w @ s"
  by (induction s arbitrary: w) (simp_all add: join_Cons split_acc_not_Nil)

lemma join_split_on: "join [sep] (split_on sep s) = s"
  by (simp add: split_on_def join_split_acc)

lemma split_acc_append:
  "sep \<notin> set x \<Longrightarrow> split_acc sep w (x @ s) = split_acc sep (w @ x) s"
  by (induction x arbitrary: w) auto

lemma split_acc_join:
  "\<forall>x \<in> set (y # ys). sep \<notin> set x \<Longrightarrow>
   split_acc sep w (join [sep] (y # ys)) = (w @ y) # ys"
proof (induction ys arbitrary: w y)
  case Nil
  then show ?case using split_acc_append [of sep y w "[]"] by simp
next
  case (Cons z zs)
  have "split_acc sep w (y @ sep # join [sep] (z # zs))
      = split_acc sep (w @ y) (sep # join [sep] (z # zs))"
    using Cons.prems by (simp add: split_acc_append)
  also have "\<dots> = (w @ y) # split_acc sep [] (join [sep] (z # zs))" by simp
  also have "\<dots> = (w @ y) # z # zs" using Cons.IH [of z "[]"] Cons.prems by simp
  finally show ?case by simp
qed

lemma split_on_join:
  "xs \<noteq> [] \<Longrightarrow> \<forall>x \<in> set xs. sep \<notin> set x \<Longrightarrow> split_on sep (join [sep] xs) = xs"
  using split_acc_join [of "hd xs" "tl xs" sep "[]"] by (cases xs) (simp_all add: split_on_def)

lemma split_acc_no_sep:
  "sep \<notin> set w \<Longrightarrow> x \<in> set (split_acc sep w s) \<Longrightarrow> sep \<notin> set x"
proof (induction s arbitrary: w)
  case Nil
  then show ?case by simp
next
  case (Cons c cs)
  show ?case
  proof (cases "c = sep")
    case True
    with Cons.prems have "x = w \<or> x \<in> set (split_acc sep [] cs)" by simp
    then show ?thesis using Cons.prems(1) Cons.IH [of "[]"] by auto
  next
    case False
    with Cons.prems have "x \<in> set (split_acc sep (w @ [c]) cs)" by simp
    then show ?thesis using Cons.IH [of "w @ [c]"] Cons.prems(1) False by auto
  qed
qed

lemma split_on_no_sep: "x \<in> set (split_on sep s) \<Longrightarrow> sep \<notin> set x"
  using split_acc_no_sep [of sep "[]" x s] by (simp add: split_on_def)

lemma split_on_not_Nil: "split_on sep s \<noteq> []"
  by (simp add: split_on_def split_acc_not_Nil)

lemma swapcase_char_fixed: "swapcase_char c = c \<Longrightarrow> swapcase_char d = c \<longleftrightarrow> d = c"
  by (metis swapcase_char_involution)

lemma swapcase_mem: "x \<in> set (swapcase s) \<longleftrightarrow> swapcase_char x \<in> set s"
proof
  assume "x \<in> set (swapcase s)"
  then obtain y where "y \<in> set s" "x = swapcase_char y" by (auto simp: swapcase_def)
  then show "swapcase_char x \<in> set s" by (simp add: swapcase_char_involution)
next
  assume "swapcase_char x \<in> set s"
  then have "swapcase_char (swapcase_char x) \<in> set (swapcase s)"
    unfolding swapcase_def by (simp del: swapcase_char_involution)
  then show "x \<in> set (swapcase s)" by (simp add: swapcase_char_involution)
qed

subsection \<open>The three field transformations\<close>

lemma mirror_rows_rows:
  "split_on CHR ''/'' (mirror_rows p) = rev (map swapcase (split_on CHR ''/'' p))"
proof -
  have "\<forall>x \<in> set (rev (map swapcase (split_on CHR ''/'' p))). CHR ''/'' \<notin> set x"
    using split_on_no_sep [of _ "CHR ''/''" p]
    by (auto simp: swapcase_mem swapcase_char_eval)
  then show ?thesis
    unfolding mirror_rows_def
    using split_on_join [of "rev (map swapcase (split_on CHR ''/'' p))" "CHR ''/''"]
    by (simp add: split_on_not_Nil)
qed

lemma mirror_rows_involution: "mirror_rows (mirror_rows p) = p"
proof -
  have "mirror_rows (mirror_rows p)
      = join ''/'' (rev (map swapcase (rev (map swapcase (split_on CHR ''/'' p)))))"
    by (simp add: mirror_rows_def [of "mirror_rows p"] mirror_rows_rows)
  also have "\<dots> = join ''/'' (split_on CHR ''/'' p)"
    by (simp add: rev_map swapcase_involution comp_def)
  finally show ?thesis by (simp add: join_split_on)
qed

lemma castling_swap_filter:
  "castling_swap c = filter (\<lambda>x. swapcase_char x \<in> set c) ''KQkq-''"
  by (simp add: castling_swap_def swapcase_mem)

lemma castling_swap_twice:
  "castling_swap (castling_swap c) = filter (\<lambda>x. x \<in> set c) ''KQkq-''"
  unfolding castling_swap_filter [of "castling_swap c"]
  by (simp add: castling_swap_filter swapcase_char_eval swapcase_char_involution)

lemma swapcase_concat: "swapcase (concat xs) = concat (map swapcase xs)"
  by (induction xs) (simp_all add: swapcase_def)

subsection \<open>The side switcher is an involution\<close>

lemma concat_rank_rows:
  "concat (map (\<lambda>j. take k (drop (k * j) s)) [0..<n]) = take (k * n) s"
proof (induction n)
  case 0
  show ?case by simp
next
  case (Suc n)
  have "take (k * n) s @ take k (drop (k * n) s) = take (k * n + k) s"
    by (simp add: take_add)
  with Suc show ?case by (simp add: add.commute)
qed

lemma rank_rows_concat:
  "\<forall>r \<in> set rs. length r = k \<Longrightarrow>
   map (\<lambda>j. take k (drop (k * j) (concat rs))) [0..<length rs] = rs"
proof (induction rs)
  case Nil
  show ?case by simp
next
  case (Cons r rs)
  have len: "length r = k" using Cons.prems by simp
  have ih: "map (\<lambda>j. take k (drop (k * j) (concat rs))) [0..<length rs] = rs"
    using Cons by simp
  have "[0..<length (r # rs)] = 0 # map Suc [0..<length rs]"
    by (simp add: upt_conv_Cons map_Suc_upt del: upt_Suc)
  then have "map (\<lambda>j. take k (drop (k * j) (concat (r # rs)))) [0..<length (r # rs)]
      = take k (r @ concat rs)
        # map (\<lambda>j. take k (drop (k * Suc j) (r @ concat rs))) [0..<length rs]"
    by (simp add: comp_def)
  also have "\<dots> = r # map (\<lambda>j. take k (drop (k * j) (concat rs))) [0..<length rs]"
    using len by simp
  finally show ?case using ih by simp
qed

lemma rank_row_fun: "rank_row s = (\<lambda>j. take 8 (drop (8 * j) s))"
  by (rule ext) (simp add: rank_row_def)

lemma rank_row_swapcase: "rank_row (swapcase t) j = swapcase (rank_row t j)"
  by (simp add: rank_row_def swapcase_def take_map drop_map)

text \<open>
  Claim C10. \<open>switch_from_blacks_move\<close> is an involution on board strings of 64
  characters: it reverses the order of the eight rows of eight characters and swaps
  the case of every character, and doing that twice gives the string back. So it turns
  a White-to-move representation into a Black-to-move one as well as the reverse.
\<close>

theorem switch_from_blacks_move_involution:
  assumes "length s = 64"
  shows "switch_from_blacks_move (switch_from_blacks_move s) = s"
proof -
  define rows where "rows = map (rank_row s) [0..<8]"
  have rows_len: "length rows = 8" by (simp add: rows_def)
  have row_len: "\<forall>r \<in> set rows. length r = 8"
    using assms by (auto simp: rows_def rank_row_def)
  have s_rows: "concat rows = s"
    using concat_rank_rows [of 8 s 8] assms by (simp add: rows_def rank_row_fun)
  have once: "switch_from_blacks_move s = swapcase (concat (rev rows))"
    by (simp add: switch_from_blacks_move_def rows_def)
  have "map (rank_row (concat (rev rows))) [0..<8] = rev rows"
    using rank_rows_concat [of "rev rows" 8] rows_len row_len
    by (simp add: rank_row_fun)
  moreover have "map (rank_row (swapcase (concat (rev rows)))) [0..<8]
      = map swapcase (map (rank_row (concat (rev rows))) [0..<8])"
    by (simp add: rank_row_swapcase)
  ultimately have "map (rank_row (swapcase (concat (rev rows)))) [0..<8]
      = map swapcase (rev rows)"
    by simp
  then have "switch_from_blacks_move (swapcase (concat (rev rows)))
      = swapcase (concat (rev (map swapcase (rev rows))))"
    unfolding switch_from_blacks_move_def by simp
  also have "\<dots> = swapcase (swapcase (concat rows))"
    by (simp add: rev_map swapcase_concat)
  also have "\<dots> = s" by (simp add: swapcase_involution s_rows)
  finally show ?thesis by (simp add: once)
qed

theorem switch_from_blacks_move_involution_witness:
  "length ''rnbqkbnrpp0ppppp0000000000p000000000P00000000000PPPP0PPPRNBQKBNR'' = 64 \<and>
   switch_from_blacks_move
       ''rnbqkbnrpp0ppppp0000000000p000000000P00000000000PPPP0PPPRNBQKBNR''
     = ''rnbqkbnrpppp0ppp000000000000p00000P0000000000000PP0PPPPPRNBQKBNR'' \<and>
   switch_from_blacks_move
       (switch_from_blacks_move
          ''rnbqkbnrpp0ppppp0000000000p000000000P00000000000PPPP0PPPRNBQKBNR'')
     = ''rnbqkbnrpp0ppppp0000000000p000000000P00000000000PPPP0PPPRNBQKBNR''"
proof -
  have once: "switch_from_blacks_move
       ''rnbqkbnrpp0ppppp0000000000p000000000P00000000000PPPP0PPPRNBQKBNR''
     = ''rnbqkbnrpppp0ppp000000000000p00000P0000000000000PP0PPPPPRNBQKBNR''"
    by (simp add: switch_from_blacks_move_def rank_row_def swapcase_def swapcase_char_eval
        upt_rec)
  show ?thesis
    using switch_from_blacks_move_involution
      [of "''rnbqkbnrpp0ppppp0000000000p000000000P00000000000PPPP0PPPRNBQKBNR''"] once
    by simp
qed

lemma ep_mirror_twice:
  assumes "ep_square e"
  shows "\<exists>e'. ep_mirror e = Inr e' \<and> ep_square e' \<and> ep_mirror e' = Inr e"
proof (cases "e = ''-''")
  case True
  then show ?thesis by (simp add: ep_mirror_def ep_square_def)
next
  case False
  with assms obtain f r where e: "e = [f, r]" and d: "is_digit r"
    by (auto simp: ep_square_def length_Suc_conv numeral_2_eq_2)
  define n where "n = (of_char r :: nat) - 48"
  have n: "n \<le> 9" "(of_char r :: nat) = 48 + n"
    using d by (auto simp: is_digit_def n_def)
  define r' where "r' = char_of (48 + (9 - n))"
  have r': "(of_char r' :: nat) = 57 - n"
    using n by (simp add: r'_def)
  have e': "ep_mirror e = Inr [f, r']"
    using False d by (simp add: e ep_mirror_def int_of_char_def str_of_digit_def n_def r'_def)
  have d': "is_digit r'" using n r' by (simp add: is_digit_def)
  have "char_of (48 + (9 - ((of_char r' :: nat) - 48))) = char_of (of_char r :: nat)"
    using n r' by simp
  then have again: "ep_mirror [f, r'] = Inr [f, r]"
    using d' by (simp add: ep_mirror_def int_of_char_def str_of_digit_def)
  show ?thesis using e' d' again by (simp add: e ep_square_def)
qed

lemma ep_mirror_rank:
  assumes "ep_square e" "e \<noteq> ''-''"
  shows "\<exists>n e'. int_of_char (e ! 1) = Inr n \<and> n \<le> 9 \<and> ep_mirror e = Inr e' \<and> length e' = 2
            \<and> e' ! 0 = e ! 0 \<and> int_of_char (e' ! 1) = Inr (9 - n)"
proof -
  from assms obtain f r where e: "e = [f, r]" and d: "is_digit r"
    by (auto simp: ep_square_def length_Suc_conv numeral_2_eq_2)
  define n where "n = (of_char r :: nat) - 48"
  have n: "n \<le> 9" "(of_char r :: nat) = 48 + n"
    using d by (auto simp: is_digit_def n_def)
  define r' where "r' = char_of (48 + (9 - n))"
  have r': "(of_char r' :: nat) = 57 - n"
    using n by (simp add: r'_def)
  have e': "ep_mirror e = Inr [f, r']"
    using assms(2) d by (simp add: e ep_mirror_def int_of_char_def str_of_digit_def n_def r'_def)
  have d': "is_digit r'" using n r' by (simp add: is_digit_def)
  have "int_of_char r = Inr n" using d by (simp add: int_of_char_def n_def)
  moreover have "int_of_char r' = Inr (9 - n)" using d' r' n by (simp add: int_of_char_def)
  ultimately show ?thesis using e' n by (simp add: e)
qed

text \<open>
  Claim C9. The mirroring of the Canonicalizer is an involution on the fields it
  changes: for a Black-to-move FEN whose castling field and en-passant field are
  well-formed, the Black-to-move transformation succeeds, and the same transformation
  applied to the fields of its result gives back the original piece placement, castling
  rights and en-passant field (the side-to-move field is \<open>w\<close>).
\<close>

theorem mirror_fields_involution:
  assumes "split_ws fen = p # t # c # e # rest"
    and "castling_in_order c" and "ep_square e"
  shows "\<exists>fs. mirror_fields (split_ws fen) = Inr fs
           \<and> black_fen_to_white fen = Inr (join '','' fs)
           \<and> (t \<noteq> ''w'' \<longrightarrow> make_fen_white fen = Inr (join '','' fs))
           \<and> mirror_fields fs = Inr (p # ''w'' # c # e # rest)"
proof -
  from ep_mirror_twice [OF assms(3)] obtain e'
    where e': "ep_mirror e = Inr e'" "ep_mirror e' = Inr e" by blast
  define fs where "fs = mirror_rows p # ''w'' # castling_swap c # e' # rest"
  have once: "mirror_fields (split_ws fen) = Inr fs"
    by (simp add: assms(1) mirror_fields_def e' fs_def)
  have "castling_swap (castling_swap c) = c"
    using assms(2) by (simp add: castling_swap_twice castling_in_order_def)
  then have twice: "mirror_fields fs = Inr (p # ''w'' # c # e # rest)"
    by (simp add: fs_def mirror_fields_def e' mirror_rows_involution)
  have "black_fen_to_white fen = Inr (join '','' fs)"
    by (simp add: black_fen_to_white_def once)
  moreover have "t \<noteq> ''w'' \<longrightarrow> make_fen_white fen = Inr (join '','' fs)"
    using once by (simp add: make_fen_white_def assms(1))
  ultimately show ?thesis using once twice by blast
qed

theorem mirror_fields_involution_witness:
  "split_ws ''rnbqkbnr/pppppppp/8/8/4P3/8/PPPP1PPP/RNBQKBNR b Kq e3 0 1''
     = [''rnbqkbnr/pppppppp/8/8/4P3/8/PPPP1PPP/RNBQKBNR'', ''b'', ''Kq'', ''e3'', ''0'', ''1'']
   \<and> castling_in_order ''Kq'' \<and> ep_square ''e3''
   \<and> black_fen_to_white ''rnbqkbnr/pppppppp/8/8/4P3/8/PPPP1PPP/RNBQKBNR b Kq e3 0 1''
       = Inr ''rnbqkbnr/pppp1ppp/8/4p3/8/8/PPPPPPPP/RNBQKBNR,w,Qk,e6,0,1''
   \<and> make_fen_white ''rnbqkbnr/pppppppp/8/8/4P3/8/PPPP1PPP/RNBQKBNR b Kq e3 0 1''
       = Inr ''rnbqkbnr/pppp1ppp/8/4p3/8/8/PPPPPPPP/RNBQKBNR,w,Qk,e6,0,1''
   \<and> mirror_fields
         [''rnbqkbnr/pppp1ppp/8/4p3/8/8/PPPPPPPP/RNBQKBNR'', ''w'', ''Qk'', ''e6'', ''0'', ''1'']
       = Inr [''rnbqkbnr/pppppppp/8/8/4P3/8/PPPP1PPP/RNBQKBNR'', ''w'', ''Kq'', ''e3'', ''0'',
              ''1'']"
proof -
  let ?fen = "''rnbqkbnr/pppppppp/8/8/4P3/8/PPPP1PPP/RNBQKBNR b Kq e3 0 1''"
  have h1: "split_ws ?fen
     = [''rnbqkbnr/pppppppp/8/8/4P3/8/PPPP1PPP/RNBQKBNR'', ''b'', ''Kq'', ''e3'', ''0'', ''1'']"
    by (simp add: split_ws_def is_space_def)
  have h2: "castling_in_order ''Kq''" by (simp add: castling_in_order_def)
  have h3: "ep_square ''e3''" by (simp add: ep_square_def is_digit_def)
  have once: "mirror_fields (split_ws ?fen)
     = Inr [''rnbqkbnr/pppp1ppp/8/4p3/8/8/PPPPPPPP/RNBQKBNR'', ''w'', ''Qk'', ''e6'', ''0'', ''1'']"
    unfolding h1
    by (simp add: mirror_fields_def ep_mirror_def int_of_char_def is_digit_def
        str_of_digit_eval mirror_rows_def split_on_def swapcase_def swapcase_char_eval
        castling_swap_def)
  from mirror_fields_involution [OF h1 h2 h3] once
  have "black_fen_to_white ?fen
        = Inr (join '','' [''rnbqkbnr/pppp1ppp/8/4p3/8/8/PPPPPPPP/RNBQKBNR'', ''w'', ''Qk'',
                           ''e6'', ''0'', ''1''])
     \<and> make_fen_white ?fen
        = Inr (join '','' [''rnbqkbnr/pppp1ppp/8/4p3/8/8/PPPPPPPP/RNBQKBNR'', ''w'', ''Qk'',
                           ''e6'', ''0'', ''1''])
     \<and> mirror_fields
         [''rnbqkbnr/pppp1ppp/8/4p3/8/8/PPPPPPPP/RNBQKBNR'', ''w'', ''Qk'', ''e6'', ''0'', ''1'']
       = Inr [''rnbqkbnr/pppppppp/8/8/4P3/8/PPPP1PPP/RNBQKBNR'', ''w'', ''Kq'', ''e3'', ''0'',
              ''1'']"
    by auto
  then show ?thesis using h1 h2 h3 by simp
qed

lemma words_acc_subset:
  "x \<in> set (words_acc w s) \<Longrightarrow> set x \<subseteq> set w \<union> set s"
proof (induction s arbitrary: w)
  case Nil
  then show ?case by (auto split: if_splits)
next
  case (Cons c cs)
  show ?case
  proof (cases "is_space c")
    case True
    with Cons.prems have "x = w \<or> x \<in> set (words_acc [] cs)"
      by (auto split: if_splits)
    then show ?thesis using Cons.IH [of "[]"] by auto
  next
    case False
    with Cons.prems have "x \<in> set (words_acc (w @ [c]) cs)" by simp
    then show ?thesis using Cons.IH [of "w @ [c]"] by auto
  qed
qed

lemma split_ws_subset: "x \<in> set (split_ws s) \<Longrightarrow> set x \<subseteq> set s"
  using words_acc_subset [of x "[]" s] by (simp add: split_ws_def)

lemma stored_elements_join:
  assumes "CHR '','' \<notin> set fen" and "split_ws fen \<noteq> []"
  shows "stored_elements els (join '','' (split_ws fen))
     = join '','' (map snd (filter (\<lambda>(index, info). index \<in> set els)
                                   (enumerate 0 (split_ws fen))))"
proof -
  have "\<forall>x \<in> set (split_ws fen). CHR '','' \<notin> set x"
    using assms(1) split_ws_subset by blast
  then have "split_on CHR '','' (join '','' (split_ws fen)) = split_ws fen"
    using split_on_join [of "split_ws fen" "CHR '',''"] assms(2) by simp
  then show ?thesis by (simp add: stored_elements_def)
qed

text \<open>
  Claim C1, as amended. For a FEN with at least four fields and a well-formed
  en-passant field, \<open>black_fen_to_white\<close> (and \<open>make_fen_white\<close> when the side-to-move
  field is not \<open>w\<close>) returns the fields joined by commas, where the rows of the piece
  placement are the original rows in reverse order with the case of every character
  swapped, the side to move is \<open>w\<close>, the castling field keeps those of \<open>K\<close>, \<open>Q\<close>, \<open>k\<close>,
  \<open>q\<close>, \<open>-\<close> whose opposite-case character occurs in the original field, an en-passant
  field \<open>-\<close> stays and another one keeps its file and has its rank \<open>r\<close> replaced by
  \<open>9 - r\<close>, and the remaining fields are unchanged. When the side to move is White,
  \<open>make_fen_white\<close> returns the FEN as it is and the Aggregator joins the fields
  unchanged; the key is the selected fields, unchanged.
\<close>

theorem canonicalizer_fields:
  assumes "split_ws fen = p # t # c # e # rest" and "ep_square e"
  shows "\<exists>p' c' e'.
      black_fen_to_white fen = Inr (join '','' (p' # ''w'' # c' # e' # rest))
    \<and> (t \<noteq> ''w'' \<longrightarrow> make_fen_white fen = black_fen_to_white fen)
    \<and> split_on CHR ''/'' p' = rev (map swapcase (split_on CHR ''/'' p))
    \<and> c' = filter (\<lambda>x. swapcase_char x \<in> set c) ''KQkq-''
    \<and> (e = ''-'' \<longrightarrow> e' = ''-'')
    \<and> (e \<noteq> ''-'' \<longrightarrow>
         (\<exists>n. int_of_char (e ! 1) = Inr n \<and> length e' = 2 \<and> e' ! 0 = e ! 0
              \<and> int_of_char (e' ! 1) = Inr (9 - n)))
    \<and> (t = ''w'' \<longrightarrow> make_fen_white fen = Inr fen)
    \<and> (board_fen E b = fen \<and> board_turn E b \<longrightarrow>
         white_move_string E sw b = Inr (join '','' (split_ws fen)))
    \<and> (CHR '','' \<notin> set fen \<longrightarrow>
         stored_elements els (join '','' (split_ws fen))
           = join '','' (map snd (filter (\<lambda>(index, info). index \<in> set els)
                                         (enumerate 0 (split_ws fen)))))"
proof -
  from ep_mirror_twice [OF assms(2)] obtain e' where e': "ep_mirror e = Inr e'" by blast
  have bw: "black_fen_to_white fen
      = Inr (join '','' (mirror_rows p # ''w'' # castling_swap c # e' # rest))"
    by (simp add: black_fen_to_white_def assms(1) mirror_fields_def e')
  have mk: "t \<noteq> ''w'' \<longrightarrow> make_fen_white fen = black_fen_to_white fen"
    by (simp add: make_fen_white_def black_fen_to_white_def assms(1))
  have mkw: "t = ''w'' \<longrightarrow> make_fen_white fen = Inr fen"
    by (simp add: make_fen_white_def assms(1))
  have dash: "e = ''-'' \<longrightarrow> e' = ''-''"
    using e' by (auto simp: ep_mirror_def)
  have sq: "e \<noteq> ''-'' \<longrightarrow>
         (\<exists>n. int_of_char (e ! 1) = Inr n \<and> length e' = 2 \<and> e' ! 0 = e ! 0
              \<and> int_of_char (e' ! 1) = Inr (9 - n))"
    using ep_mirror_rank [OF assms(2)] e' by auto
  have wms: "board_fen E b = fen \<and> board_turn E b \<longrightarrow>
         white_move_string E sw b = Inr (join '','' (split_ws fen))"
    by (simp add: white_move_string_def)
  have st: "CHR '','' \<notin> set fen \<longrightarrow>
         stored_elements els (join '','' (split_ws fen))
           = join '','' (map snd (filter (\<lambda>(index, info). index \<in> set els)
                                         (enumerate 0 (split_ws fen))))"
    using stored_elements_join [of fen els] assms(1) by simp
  show ?thesis
    using bw mk mkw dash sq wms st mirror_rows_rows [of p] castling_swap_filter [of c]
    by blast
qed

text \<open>
  The claim as stated fails on the castling field: with only White's king-side right
  \<open>K\<close>, the code gives \<open>k\<close>, while the characters present in \<open>K\<close> when case is
  ignored are \<open>K\<close> and \<open>k\<close>.
\<close>

theorem canonicalizer_castling_counterexample:
  "black_fen_to_white ''4k3/8/8/8/8/8/8/4K2R b K - 0 1''
     = Inr ''4k2r/8/8/8/8/8/8/4K3,w,k,-,0,1''
   \<and> castling_swap ''K'' = ''k''
   \<and> spec_castling_case_insensitive ''K'' = ''Kk''"
  by (simp add: black_fen_to_white_def split_ws_def is_space_def mirror_fields_def
      ep_mirror_def mirror_rows_def split_on_def swapcase_def swapcase_char_eval
      castling_swap_def spec_castling_case_insensitive_def)

theorem canonicalizer_fields_witness:
  "split_ws ''rnbqkbnr/pppppppp/8/8/4P3/8/PPPP1PPP/RNBQKBNR b Kq e3 0 1''
     = [''rnbqkbnr/pppppppp/8/8/4P3/8/PPPP1PPP/RNBQKBNR'', ''b'', ''Kq'', ''e3'', ''0'', ''1'']
   \<and> ep_square ''e3''
   \<and> black_fen_to_white ''rnbqkbnr/pppppppp/8/8/4P3/8/PPPP1PPP/RNBQKBNR b Kq e3 0 1''
       = Inr ''rnbqkbnr/pppp1ppp/8/4p3/8/8/PPPPPPPP/RNBQKBNR,w,Qk,e6,0,1''
   \<and> make_fen_white ''rnbqkbnr/pppppppp/8/8/4P3/8/PPPP1PPP/RNBQKBNR b Kq e3 0 1''
       = Inr ''rnbqkbnr/pppp1ppp/8/4p3/8/8/PPPPPPPP/RNBQKBNR,w,Qk,e6,0,1''
   \<and> split_ws ''8/K w Kq - 0 1'' = [''8/K'', ''w'', ''Kq'', ''-'', ''0'', ''1'']
   \<and> ep_square ''-''
   \<and> board_fen toy_engine [] = ''8/K w Kq - 0 1'' \<and> board_turn toy_engine []
   \<and> make_fen_white ''8/K w Kq - 0 1'' = Inr ''8/K w Kq - 0 1''
   \<and> white_move_string toy_engine True [] = Inr ''8/K,w,Kq,-,0,1''
   \<and> stored_elements [0, 2, 3] ''8/K,w,Kq,-,0,1'' = ''8/K,Kq,-''"
proof -
  let ?fen = "''rnbqkbnr/pppppppp/8/8/4P3/8/PPPP1PPP/RNBQKBNR b Kq e3 0 1''"
  have h1: "split_ws ?fen
     = [''rnbqkbnr/pppppppp/8/8/4P3/8/PPPP1PPP/RNBQKBNR'', ''b'', ''Kq'', ''e3'', ''0'', ''1'']"
    by (simp add: split_ws_def is_space_def)
  have h2: "ep_square ''e3''" by (simp add: ep_square_def is_digit_def)
  have bw: "black_fen_to_white ?fen
       = Inr ''rnbqkbnr/pppp1ppp/8/4p3/8/8/PPPPPPPP/RNBQKBNR,w,Qk,e6,0,1''"
    unfolding black_fen_to_white_def h1
    by (simp add: mirror_fields_def ep_mirror_def int_of_char_def is_digit_def
        str_of_digit_eval mirror_rows_def split_on_def swapcase_def swapcase_char_eval
        castling_swap_def)
  from canonicalizer_fields [OF h1 h2, of toy_engine "[]" True "[]"]
  have "''b'' \<noteq> ''w'' \<longrightarrow> make_fen_white ?fen = black_fen_to_white ?fen" by blast
  then have mk: "make_fen_white ?fen = black_fen_to_white ?fen" by simp
  have g1: "split_ws ''8/K w Kq - 0 1'' = [''8/K'', ''w'', ''Kq'', ''-'', ''0'', ''1'']"
    by (simp add: split_ws_def is_space_def)
  have g2: "ep_square ''-''" by (simp add: ep_square_def)
  have tf: "board_fen toy_engine [] = ''8/K w Kq - 0 1''" "board_turn toy_engine []"
    by (simp_all add: toy_engine_def toy_fen_def)
  from canonicalizer_fields [OF g1 g2, of toy_engine "[]" True "[0, 2, 3]"]
  have "(''w'' = ''w'' \<longrightarrow> make_fen_white ''8/K w Kq - 0 1'' = Inr ''8/K w Kq - 0 1'')
    \<and> (board_fen toy_engine [] = ''8/K w Kq - 0 1'' \<and> board_turn toy_engine [] \<longrightarrow>
         white_move_string toy_engine True []
           = Inr (join '','' (split_ws ''8/K w Kq - 0 1'')))
    \<and> (CHR '','' \<notin> set ''8/K w Kq - 0 1'' \<longrightarrow>
         stored_elements [0, 2, 3] (join '','' (split_ws ''8/K w Kq - 0 1''))
           = join '','' (map snd (filter (\<lambda>(index, info). index \<in> set [0, 2, 3])
                                         (enumerate 0 (split_ws ''8/K w Kq - 0 1'')))))"
    by blast
  with tf have w: "make_fen_white ''8/K w Kq - 0 1'' = Inr ''8/K w Kq - 0 1''"
    "white_move_string toy_engine True [] = Inr (join '','' (split_ws ''8/K w Kq - 0 1''))"
    "stored_elements [0, 2, 3] (join '','' (split_ws ''8/K w Kq - 0 1''))
       = join '','' (map snd (filter (\<lambda>(index, info). index \<in> set [0, 2, 3])
                                     (enumerate 0 (split_ws ''8/K w Kq - 0 1''))))"
    by simp_all
  have j: "join '','' (split_ws ''8/K w Kq - 0 1'') = ''8/K,w,Kq,-,0,1''"
    unfolding g1 by simp
  have s: "stored_elements [0, 2, 3] ''8/K,w,Kq,-,0,1'' = ''8/K,Kq,-''"
    using w(3) unfolding j unfolding g1 by (simp add: enumerate_eq_zip upt_rec)
  show ?thesis using h1 h2 bw mk g1 g2 tf w(1) w(2) j s by simp
qed

lemma n_man_loop_count:
  "n_man_loop n counter s \<longleftrightarrow> (piece_count s = 0 \<or> counter + int (piece_count s) \<le> n)"
proof -
  define S where "S = set ''KQRBNPkqrbnp''"
  have step: "\<And>c cs k. n_man_loop n k (c # cs) =
      (if c \<in> S then (if k + 1 > n then False else n_man_loop n (k + 1) cs)
       else n_man_loop n k cs)"
    unfolding S_def by (simp only: n_man_loop.simps)
  have pc: "\<And>c cs. piece_count (c # cs) = (if c \<in> S then Suc (piece_count cs) else piece_count cs)"
    unfolding S_def piece_count_def by (simp only: filter.simps list.size if_distrib) simp
  show ?thesis
  proof (induction s arbitrary: counter)
    case Nil
    show ?case by (simp add: piece_count_def)
  next
    case (Cons c cs)
    show ?case
      unfolding step pc using Cons.IH [of counter] Cons.IH [of "counter + 1"]
      by (cases "c \<in> S") auto
  qed
qed

lemma n_man_filter_creator_count:
  "n_man_filter_creator n s d \<longleftrightarrow> (piece_count s = 0 \<or> int (piece_count s) \<le> n)"
  by (simp add: n_man_filter_creator_def n_man_loop_count)

text \<open>
  Claim C7 says that the filter returns true exactly when the key has more than \<open>n\<close>
  piece letters, as the docstring of \<open>n_man_filter_creator\<close> does. The code returns
  the opposite: with \<open>n = 6\<close> it is true on a key with 2 piece letters and false on
  one with 32.
\<close>

theorem n_man_filter_creator_inverted:
  "piece_count ''8/8/8/4k3/8/8/4K3/8,-,-'' = 2
   \<and> n_man_filter_creator 6 ''8/8/8/4k3/8/8/4K3/8,-,-'' () = True
   \<and> piece_count ''rnbqkbnr/pppppppp/8/8/8/8/PPPPPPPP/RNBQKBNR,-,-'' = 32
   \<and> n_man_filter_creator 6 ''rnbqkbnr/pppppppp/8/8/8/8/PPPPPPPP/RNBQKBNR,-,-'' () = False"
proof -
  have a: "piece_count ''8/8/8/4k3/8/8/4K3/8,-,-'' = 2"
    by (simp add: piece_count_def)
  have b: "piece_count ''rnbqkbnr/pppppppp/8/8/8/8/PPPPPPPP/RNBQKBNR,-,-'' = 32"
    by (simp add: piece_count_def)
  show ?thesis
    by (simp add: n_man_filter_creator_count a b)
qed

subsection \<open>Pre-filters\<close>

lemma filter_matches_iff: "filter_matches F x y \<longleftrightarrow> (\<exists>f \<in> set F. f x y)"
  by (induction F) auto

lemma visit_move_vetoed:
  "filter_matches F b m \<Longrightarrow>
   visit_move E F sw els (b, configs) m = Inr (board_push E b m, configs)"
  by (simp add: visit_move_def)

lemma main_line_loop_all_vetoed:
  "\<forall>(the_board, move) \<in> set (plies E b game). filter_matches F the_board move \<Longrightarrow>
   main_line_loop E F sw els game (b, configs) = Inr (foldl (board_push E) b game, configs)"
  by (induction game arbitrary: b) (simp_all add: visit_move_vetoed)

text \<open>
  Claim C8. When the chain of pre-filters matches at a ply (some filter of the chain
  returns true, the chain being tried in order up to the first match), the turn of the
  loop leaves the dictionary unchanged and still pushes the move. So a chain that
  matches at every ply of a game leaves the dictionary unchanged while the walk reaches
  the position after the last move, without an exception; a run over that game alone
  gives an empty dictionary.
\<close>

theorem pre_filter_veto:
  "(filter_matches F b m \<longrightarrow>
      visit_move E F sw els (b, configs) m = Inr (board_push E b m, configs))
   \<and> (filter_matches F b m \<longleftrightarrow> (\<exists>f \<in> set F. f b m))
   \<and> ((\<forall>(the_board, move) \<in> set (plies E (board_start E) game).
          filter_matches F the_board move) \<longrightarrow>
        main_line_loop E F sw els game (board_start E, configs)
          = Inr (foldl (board_push E) (board_start E) game, configs)
        \<and> create_database_from_pgn E [[game]] F [] sw els = Inr [])"
  by (simp add: visit_move_vetoed filter_matches_iff main_line_loop_all_vetoed
      create_database_from_pgn_def post_collection_def)

theorem pre_filter_veto_witness:
  "plies toy_engine (board_start toy_engine) [0, 1, 2] = [([], 0), ([0], 1), ([0, 1], 2)]
   \<and> filter_matches [\<lambda>b m. length b \<le> 5] ([] :: nat list) (0::nat)
   \<and> filter_matches [\<lambda>b m. length b \<le> 5] [0 :: nat] (1::nat)
   \<and> filter_matches [\<lambda>b m. length b \<le> 5] [0 :: nat, 1] (2::nat)
   \<and> visit_move toy_engine [\<lambda>b m. length b \<le> 5] True [0, 2, 3] ([], []) 0 = Inr ([0], [])
   \<and> main_line_loop toy_engine [\<lambda>b m. length b \<le> 5] True [0, 2, 3] [0, 1, 2] ([], [])
       = Inr ([0, 1, 2], [])
   \<and> create_database_from_pgn toy_engine [[[0, 1, 2]]] [\<lambda>b m. length b \<le> 5] [] True [0, 2, 3]
       = Inr []"
proof -
  let ?F = "[\<lambda>(b :: nat list) (m :: nat). length b \<le> 5]"
  have p: "plies toy_engine (board_start toy_engine) [0, 1, 2]
      = [([], 0), ([0], 1), ([0, 1], 2)]"
    by (simp add: toy_engine_def)
  have s: "board_start toy_engine = []" by (simp add: toy_engine_def)
  have f: "filter_matches [\<lambda>b m. length b \<le> 5] ([] :: nat list) (0::nat)"
    "filter_matches [\<lambda>b m. length b \<le> 5] [0 :: nat] (1::nat)"
    "filter_matches [\<lambda>b m. length b \<le> 5] [0 :: nat, 1] (2::nat)"
    by simp_all
  have all: "\<forall>(the_board, move) \<in> set (plies toy_engine (board_start toy_engine) [0, 1, 2]).
      filter_matches ?F the_board move"
    unfolding p by simp
  have e: "board_push toy_engine [] 0 = [0]"
    "foldl (board_push toy_engine) [] [0, 1, 2] = [0, 1, 2]"
    by (simp_all add: toy_engine_def)
  from pre_filter_veto [of ?F "[]" 0 toy_engine True "[0, 2, 3]" "[]" "[0, 1, 2]"] f(1) all
  have "visit_move toy_engine ?F True [0, 2, 3] ([], []) 0
          = Inr (board_push toy_engine [] 0, [])
      \<and> main_line_loop toy_engine ?F True [0, 2, 3] [0, 1, 2] (board_start toy_engine, [])
          = Inr (foldl (board_push toy_engine) (board_start toy_engine) [0, 1, 2], [])
      \<and> create_database_from_pgn toy_engine [[[0, 1, 2]]] ?F [] True [0, 2, 3] = Inr []"
    by blast
  then have r: "visit_move toy_engine ?F True [0, 2, 3] ([], []) 0 = Inr ([0], [])
      \<and> main_line_loop toy_engine ?F True [0, 2, 3] [0, 1, 2] ([], []) = Inr ([0, 1, 2], [])
      \<and> create_database_from_pgn toy_engine [[[0, 1, 2]]] ?F [] True [0, 2, 3] = Inr []"
    by (simp only: s e)
  show ?thesis
    by (intro conjI p f r [THEN conjunct1] r [THEN conjunct2, THEN conjunct1]
        r [THEN conjunct2, THEN conjunct2])
qed

subsection \<open>The loops as a fold over the observed pairs\<close>

lemma record_pair_apply: "record_pair (k, m) cfg = configs_record k m cfg"
  by (simp add: record_pair_def)

lemma map_raise_append:
  "map_raise f (xs @ ys) =
     (case map_raise f xs of
        Inl err \<Rightarrow> Inl err
      | Inr us \<Rightarrow> (case map_raise f ys of Inl err \<Rightarrow> Inl err | Inr vs \<Rightarrow> Inr (us @ vs)))"
  by (induction xs) (auto split: sum.splits)

lemma map_raise_Inr_iff:
  "map_raise f xs = Inr ys \<longleftrightarrow> map f xs = map Inr ys"
proof (induction xs arbitrary: ys)
  case Nil
  show ?case by auto
next
  case (Cons x xs)
  show ?case
  proof (cases "f x")
    case (Inl e)
    then show ?thesis by (cases ys) auto
  next
    case (Inr y)
    show ?thesis
    proof (cases "map_raise f xs")
      case (Inl e)
      with Cons.IH have "\<And>zs. map f xs \<noteq> map Inr zs" by simp
      with Inl Inr show ?thesis by (cases ys) auto
    next
      case r: (Inr zs)
      have m: "map f xs = map Inr zs" using Cons.IH [of zs] r by simp
      have "map Inr zs = map Inr (tl ys) \<longleftrightarrow> zs = tl ys"
        by (simp add: inj_map_eq_map)
      with r Inr m show ?thesis by (cases ys) auto
    qed
  qed
qed

lemma main_line_loop_observed:
  "main_line_loop E F sw els game (b, configs) =
     (case map_raise (ply_key E sw els) (saved_plies E F b game) of
        Inl err \<Rightarrow> Inl err
      | Inr obs \<Rightarrow> Inr (foldl (board_push E) b game, fold record_pair obs configs))"
proof (induction game arbitrary: b configs)
  case Nil
  show ?case by (simp add: saved_plies_def)
next
  case (Cons move rest)
  show ?case
  proof (cases "filter_matches F b move")
    case True
    then show ?thesis
      using Cons.IH [of "board_push E b move" configs]
      by (simp add: visit_move_def saved_plies_def split: sum.splits)
  next
    case False
    show ?thesis
    proof (cases "white_move_string E sw b")
      case (Inl e)
      with False show ?thesis
        by (simp add: visit_move_def saved_plies_def ply_key_def)
    next
      case (Inr s)
      with False show ?thesis
        using Cons.IH [of "board_push E b move" "configs_record (stored_elements els s) move configs"]
        by (simp add: visit_move_def saved_plies_def ply_key_def record_pair_apply
            split: sum.splits)
    qed
  qed
qed

lemma games_loop_observed:
  "games_loop E F sw els games (board_start E, configs) =
     (case map_raise (observed E F sw els) games of
        Inl err \<Rightarrow> Inl err
      | Inr obss \<Rightarrow> Inr (board_start E, fold record_pair (concat obss) configs))"
proof (induction games arbitrary: configs)
  case Nil
  show ?case by simp
next
  case (Cons g gs)
  show ?case
  proof (cases "observed E F sw els g")
    case (Inl e)
    then show ?thesis
      by (simp add: main_line_loop_observed observed_def)
  next
    case (Inr obs)
    then show ?thesis
      using Cons.IH [of "fold record_pair obs configs"]
      by (simp add: main_line_loop_observed observed_def split: sum.splits)
  qed
qed

lemma games_loop_append:
  "games_loop E F sw els (xs @ ys) st =
     (case games_loop E F sw els xs st of
        Inl err \<Rightarrow> Inl err
      | Inr st' \<Rightarrow> games_loop E F sw els ys st')"
proof (induction xs arbitrary: st)
  case Nil
  show ?case by simp
next
  case (Cons g gs)
  show ?case
    by (cases "main_line_loop E F sw els g st") (auto simp: Cons.IH split: sum.splits)
qed

lemma files_loop_concat:
  "files_loop E F sw els files st = games_loop E F sw els (concat files) st"
proof (induction files arbitrary: st)
  case Nil
  show ?case by simp
next
  case (Cons f fs)
  show ?case by (simp add: games_loop_append Cons.IH split: sum.splits)
qed

lemma create_database_observed:
  "create_database_from_pgn E files F P sw els =
     (case map_raise (observed E F sw els) (concat files) of
        Inl err \<Rightarrow> Inl err
      | Inr obss \<Rightarrow> Inr (post_collection P (fold record_pair (concat obss) [])))"
  by (simp add: create_database_from_pgn_def files_loop_concat games_loop_observed
      split: sum.splits)

subsection \<open>Counts after recording\<close>

lemma map_of_moves_update:
  "map_of (moves_update m ms) m' =
     (if m' = m then Some (case map_of ms m of None \<Rightarrow> 1 | Some n \<Rightarrow> n + 1)
      else map_of ms m')"
  by (induction ms) auto

lemma map_of_configs_record:
  "map_of (configs_record k m cfg) k' =
     (if k' = k
      then Some (case map_of cfg k of None \<Rightarrow> BoardInfo_init m | Some d \<Rightarrow> BoardInfo_update d m)
      else map_of cfg k')"
  by (induction cfg) auto

lemma move_count_configs_record:
  "move_count (configs_record k m cfg) k' m' =
     move_count cfg k' m' + (if k' = k \<and> m' = m then 1 else 0)"
  by (auto simp: move_count_def map_of_configs_record BoardInfo_init_def BoardInfo_update_def
      map_of_moves_update split: option.splits)

lemma move_count_fold:
  "move_count (fold record_pair obs cfg) k m = move_count cfg k m + count_list obs (k, m)"
proof (induction obs arbitrary: cfg)
  case Nil
  show ?case by simp
next
  case (Cons ob obs)
  obtain k0 m0 where ob: "ob = (k0, m0)" by (cases ob)
  have "fold record_pair (ob # obs) cfg = fold record_pair obs (configs_record k0 m0 cfg)"
    by (simp add: ob record_pair_apply)
  then show ?case
    using Cons.IH [of "configs_record k0 m0 cfg"]
    by (auto simp: ob move_count_configs_record)
qed

lemma keys_configs_record:
  "fst ` set (configs_record k m cfg) = insert k (fst ` set cfg)"
proof (induction cfg)
  case Nil
  show ?case by simp
next
  case (Cons x cfg)
  obtain k0 d0 where x: "x = (k0, d0)" by (cases x)
  show ?case
  proof (cases "k0 = k")
    case True
    then show ?thesis by (simp add: x)
  next
    case False
    then show ?thesis using Cons.IH by (simp add: x insert_commute)
  qed
qed

lemma keys_fold:
  "fst ` set (fold record_pair obs cfg) = fst ` set obs \<union> fst ` set cfg"
proof (induction obs arbitrary: cfg)
  case Nil
  show ?case by simp
next
  case (Cons ob obs)
  obtain k0 m0 where ob: "ob = (k0, m0)" by (cases ob)
  have "fold record_pair (ob # obs) cfg = fold record_pair obs (configs_record k0 m0 cfg)"
    by (simp add: ob record_pair_apply)
  then show ?case
    using Cons.IH [of "configs_record k0 m0 cfg"]
    by (simp add: ob keys_configs_record)
qed

lemma distinct_configs_record:
  "distinct (map fst cfg) \<Longrightarrow> distinct (map fst (configs_record k m cfg))"
proof (induction cfg)
  case Nil
  show ?case by simp
next
  case (Cons x cfg)
  obtain k0 d0 where x: "x = (k0, d0)" by (cases x)
  have ih: "distinct (map fst (configs_record k m cfg))" using Cons by simp
  have notin: "k0 \<notin> fst ` set cfg" using Cons.prems x by simp
  show ?case
  proof (cases "k0 = k")
    case True
    then show ?thesis using Cons.prems x by simp
  next
    case False
    have "k0 \<notin> fst ` set (configs_record k m cfg)"
      using notin False by (simp add: keys_configs_record)
    then show ?thesis using ih False x by simp
  qed
qed

lemma distinct_fold:
  "distinct (map fst cfg) \<Longrightarrow> distinct (map fst (fold record_pair obs cfg))"
proof (induction obs arbitrary: cfg)
  case Nil
  then show ?case by simp
next
  case (Cons ob obs)
  obtain k0 m0 where ob: "ob = (k0, m0)" by (cases ob)
  have "fold record_pair (ob # obs) cfg = fold record_pair obs (configs_record k0 m0 cfg)"
    by (simp add: ob record_pair_apply)
  then show ?case
    using Cons.IH [of "configs_record k0 m0 cfg"] Cons.prems
    by (simp add: distinct_configs_record)
qed

lemma positive_configs_record:
  assumes "positive_counts cfg"
  shows "positive_counts (configs_record k m cfg)"
  unfolding positive_counts_def
proof (intro allI impI)
  fix k' d m' n
  assume d: "map_of (configs_record k m cfg) k' = Some d"
    and n: "map_of (moves d) m' = Some n"
  show "0 < n"
  proof (cases "k' = k")
    case False
    with d have "map_of cfg k' = Some d" by (simp add: map_of_configs_record)
    with assms n show ?thesis unfolding positive_counts_def by blast
  next
    case True
    show ?thesis
    proof (cases "map_of cfg k")
      case None
      with d True have "d = BoardInfo_init m" by (simp add: map_of_configs_record)
      with n show ?thesis
        by (auto simp: BoardInfo_init_def BoardInfo_update_def split: if_splits)
    next
      case (Some d0)
      with d True have dd: "d = BoardInfo_update d0 m" by (simp add: map_of_configs_record)
      show ?thesis
      proof (cases "m' = m")
        case True
        with n dd show ?thesis
          by (auto simp: BoardInfo_update_def map_of_moves_update split: option.splits)
      next
        case False
        with n dd have "map_of (moves d0) m' = Some n"
          by (simp add: BoardInfo_update_def map_of_moves_update)
        with assms Some show ?thesis unfolding positive_counts_def by blast
      qed
    qed
  qed
qed

lemma positive_fold:
  "positive_counts cfg \<Longrightarrow> positive_counts (fold record_pair obs cfg)"
proof (induction obs arbitrary: cfg)
  case Nil
  then show ?case by simp
next
  case (Cons ob obs)
  obtain k0 m0 where ob: "ob = (k0, m0)" by (cases ob)
  have "fold record_pair (ob # obs) cfg = fold record_pair obs (configs_record k0 m0 cfg)"
    by (simp add: ob record_pair_apply)
  then show ?case
    using Cons.IH [of "configs_record k0 m0 cfg"] Cons.prems
    by (simp add: positive_configs_record)
qed

lemma positive_empty: "positive_counts []"
  by (simp add: positive_counts_def)

lemma moves_view:
  assumes "positive_counts cfg" and "map_of cfg k = Some d"
  shows "map_of (moves d) m
     = (if move_count cfg k m = 0 then None else Some (move_count cfg k m))"
proof (cases "map_of (moves d) m")
  case None
  then show ?thesis using assms(2) by (simp add: move_count_def)
next
  case (Some n)
  with assms have "0 < n" unfolding positive_counts_def by blast
  with Some show ?thesis using assms(2) by (simp add: move_count_def)
qed

subsection \<open>The post-collection filters\<close>

lemma fold_configs_del:
  "fold configs_del ks cfg = filter (\<lambda>(k, d). k \<notin> set ks) cfg"
proof (induction ks arbitrary: cfg)
  case Nil
  show ?case by simp
next
  case (Cons k ks)
  have "fold configs_del (k # ks) cfg = fold configs_del ks (configs_del k cfg)"
    by simp
  also have "\<dots> = filter (\<lambda>(k', d). k' \<notin> set ks) (configs_del k cfg)"
    by (rule Cons.IH)
  also have "\<dots> = filter (\<lambda>(k', d). k' \<notin> set ks) (filter (\<lambda>(k', d). k' \<noteq> k) cfg)"
    by (simp only: configs_del_def)
  also have "\<dots> = filter (\<lambda>(k', d). k' \<notin> set (k # ks)) cfg"
    by (induction cfg) auto
  finally show ?case .
qed

lemma to_delete_iff:
  assumes "distinct (map fst cfg)" and "(k, d) \<in> set cfg"
  shows "k \<in> set (to_delete P cfg) \<longleftrightarrow> filter_matches P k d"
proof
  assume "k \<in> set (to_delete P cfg)"
  then obtain d' where d': "(k, d') \<in> set cfg" "filter_matches P k d'"
    by (auto simp: to_delete_def)
  have "d' = d" using assms d'(1) by (meson eq_key_imp_eq_value)
  with d' show "filter_matches P k d" by simp
next
  assume "filter_matches P k d"
  with assms(2) show "k \<in> set (to_delete P cfg)"
    by (force simp: to_delete_def)
qed

lemma post_collection_filter:
  assumes "distinct (map fst cfg)"
  shows "post_collection P cfg = filter (\<lambda>(k, d). \<not> filter_matches P k d) cfg"
proof -
  have "filter (\<lambda>(k, d). k \<notin> set (to_delete P cfg)) cfg
      = filter (\<lambda>(k, d). \<not> filter_matches P k d) cfg"
    by (rule filter_cong) (auto simp: to_delete_iff [OF assms])
  moreover have "P = [] \<Longrightarrow> filter (\<lambda>(k, d). \<not> filter_matches P k d) cfg = cfg"
    by simp
  ultimately show ?thesis
    by (auto simp: post_collection_def fold_configs_del)
qed

lemma map_of_filter_distinct:
  "distinct (map fst xs) \<Longrightarrow>
   map_of (filter Q xs) k =
     (case map_of xs k of None \<Rightarrow> None | Some d \<Rightarrow> if Q (k, d) then Some d else None)"
proof (induction xs)
  case Nil
  show ?case by simp
next
  case (Cons x xs)
  obtain k0 d0 where x: "x = (k0, d0)" by (cases x)
  have ih: "map_of (filter Q xs) k =
     (case map_of xs k of None \<Rightarrow> None | Some d \<Rightarrow> if Q (k, d) then Some d else None)"
    using Cons by simp
  have "k = k0 \<Longrightarrow> map_of xs k = None"
    using Cons.prems x by (auto simp: map_of_eq_None_iff)
  then show ?case using ih x by auto
qed

subsection \<open>Order of the files\<close>

lemma mset_concat_cong:
  "mset xss = mset yss \<Longrightarrow> mset (concat xss) = mset (concat yss)"
proof -
  have "\<And>zss :: 'a list list. mset (concat zss) = sum_mset (image_mset mset (mset zss))"
  proof -
    fix zss :: "'a list list"
    show "mset (concat zss) = sum_mset (image_mset mset (mset zss))"
      by (induction zss) simp_all
  qed
  then show "mset xss = mset yss \<Longrightarrow> mset (concat xss) = mset (concat yss)" by simp
qed

lemma map_raise_permuted:
  fixes f :: "'a \<Rightarrow> py_error + 'c"
  assumes "map_raise f xs = Inr ys" and "mset xs' = mset xs"
  shows "\<exists>ys'. map_raise f xs' = Inr ys' \<and> mset ys' = mset ys"
proof -
  define g where "g = (\<lambda>x. case f x of Inr y \<Rightarrow> y | Inl e \<Rightarrow> undefined)"
  have m: "map f xs = map Inr ys" using assms(1) by (simp add: map_raise_Inr_iff)
  have all: "\<forall>x \<in> set xs. f x = Inr (g x)"
  proof
    fix x assume "x \<in> set xs"
    then have "f x \<in> set (map Inr ys)" using m by (metis image_eqI set_map)
    then show "f x = Inr (g x)" by (auto simp: g_def)
  qed
  have ys: "ys = map g xs"
  proof -
    have "map f xs = map Inr (map g xs)" using all by simp
    with m have "map Inr ys = map (Inr :: 'c \<Rightarrow> py_error + 'c) (map g xs)" by simp
    then show ?thesis by (simp only: inj_map_eq_map [OF inj_Inr])
  qed
  have "set xs' = set xs" using assms(2) by (metis set_mset_mset)
  with all have "map f xs' = map Inr (map g xs')" by simp
  then have "map_raise f xs' = Inr (map g xs')" by (simp add: map_raise_Inr_iff)
  moreover have "mset (map g xs') = mset ys" using assms(2) ys by simp
  ultimately show ?thesis by blast
qed

lemma count_list_mset: "mset xs = mset ys \<Longrightarrow> count_list xs x = count_list ys x"
  by (metis count_mset)

lemma keys_filter_distinct:
  assumes "distinct (map fst xs)"
  shows "fst ` set (filter Q xs) = {k. \<exists>d. map_of xs k = Some d \<and> Q (k, d)}"
proof -
  have "fst ` set (filter Q xs) = dom (map_of (filter Q xs))"
    by (simp add: dom_map_of_conv_image_fst)
  also have "\<dots> = {k. \<exists>d. map_of xs k = Some d \<and> Q (k, d)}"
    by (auto simp: map_of_filter_distinct [OF assms] dom_def split: option.splits if_splits)
  finally show ?thesis .
qed

lemma post_collection_same:
  assumes dA: "distinct (map fst A)" and dB: "distinct (map fst B)"
    and pA: "positive_counts A" and pB: "positive_counts B"
    and keys: "fst ` set A = fst ` set B"
    and counts: "\<And>k m. move_count A k m = move_count B k m"
    and resp: "\<forall>f \<in> set P. \<forall>k d d'. map_of (moves d) = map_of (moves d') \<longrightarrow> f k d = f k d'"
  shows "fst ` set (post_collection P A) = fst ` set (post_collection P B)
       \<and> (\<forall>k m. move_count (post_collection P A) k m = move_count (post_collection P B) k m)"
proof -
  let ?Q = "\<lambda>(k, d). \<not> filter_matches P k d"
  have same: "filter_matches P k d = filter_matches P k d'"
    if "map_of A k = Some d" "map_of B k = Some d'" for k d d'
  proof -
    have "map_of (moves d) = map_of (moves d')"
      by (rule ext) (simp add: moves_view [OF pA that(1)] moves_view [OF pB that(2)] counts)
    with resp show ?thesis by (simp add: filter_matches_iff) blast
  qed
  have dom: "map_of A k = None \<longleftrightarrow> map_of B k = None" for k
    using keys by (simp add: map_of_eq_None_iff)
  have view: "(case map_of A k of None \<Rightarrow> None | Some d \<Rightarrow> if ?Q (k, d) then Some (moves d) else None)
      = (case map_of B k of None \<Rightarrow> None | Some d \<Rightarrow> if ?Q (k, d) then Some (moves d) else None)
      \<or> (\<exists>d d'. map_of A k = Some d \<and> map_of B k = Some d' \<and> ?Q (k, d) \<and> ?Q (k, d'))" for k
  proof (cases "map_of A k")
    case None
    then show ?thesis using dom [of k] by simp
  next
    case (Some d)
    then obtain d' where d': "map_of B k = Some d'" using dom [of k] by auto
    show ?thesis using same [OF Some d'] Some d' by auto
  qed
  have k1: "fst ` set (post_collection P A) = fst ` set (post_collection P B)"
  proof -
    have "{k. \<exists>d. map_of A k = Some d \<and> ?Q (k, d)} = {k. \<exists>d. map_of B k = Some d \<and> ?Q (k, d)}"
    proof (rule Collect_cong)
      fix k
      show "(\<exists>d. map_of A k = Some d \<and> ?Q (k, d)) = (\<exists>d. map_of B k = Some d \<and> ?Q (k, d))"
      proof (cases "map_of A k")
        case None
        then show ?thesis using dom [of k] by simp
      next
        case (Some d)
        then obtain d' where d': "map_of B k = Some d'" using dom [of k] by auto
        show ?thesis using same [OF Some d'] Some d' by simp
      qed
    qed
    then show ?thesis
      unfolding post_collection_filter [OF dA] post_collection_filter [OF dB]
        keys_filter_distinct [OF dA] keys_filter_distinct [OF dB] .
  qed
  have k2: "move_count (post_collection P A) k m = move_count (post_collection P B) k m" for k m
  proof (cases "map_of A k")
    case None
    then have "map_of B k = None" using dom [of k] by simp
    with None show ?thesis
      by (simp add: post_collection_filter dA dB move_count_def map_of_filter_distinct)
  next
    case (Some d)
    then obtain d' where d': "map_of B k = Some d'" using dom [of k] by auto
    have c: "move_count A k m = move_count B k m" by (rule counts)
    show ?thesis
      using same [OF Some d'] Some d' c
      by (simp add: post_collection_filter dA dB move_count_def map_of_filter_distinct)
  qed
  show ?thesis using k1 k2 by blast
qed

lemma move_count_post_collection:
  assumes "distinct (map fst A)" and "k \<in> fst ` set (post_collection P A)"
  shows "move_count (post_collection P A) k m = move_count A k m"
proof -
  from assms obtain d where "map_of A k = Some d" "\<not> filter_matches P k d"
    by (auto simp: post_collection_filter keys_filter_distinct)
  then show ?thesis
    by (simp add: post_collection_filter assms(1) move_count_def map_of_filter_distinct)
qed

lemma move_count_empty: "move_count [] k m = 0"
  by (simp add: move_count_def)

text \<open>
  Claim C4, as amended. Let every post-collection filter read a \<open>BoardInfo\<close> as a
  mapping from moves to counts, whatever the insertion order of its dictionary. When a
  run over a list of files succeeds, a run over the same files in any other order, or
  over the same games in any other order and grouping into files, succeeds too, and the
  two dictionaries have the same keys and the same count for every key and move. Each
  count of a key that is in the dictionary is the number of times the pair of that key
  and that move was observed at a ply no pre-filter vetoed, over all games of all files;
  without post-collection filters the keys are exactly the observed ones.
\<close>

theorem aggregation_order_independent:
  assumes run: "create_database_from_pgn E files F P sw els = Inr configs"
    and perm: "mset files' = mset files \<or> mset (concat files') = mset (concat files)"
    and resp: "\<forall>f \<in> set P. \<forall>k d d'. map_of (moves d) = map_of (moves d') \<longrightarrow> f k d = f k d'"
  shows "\<exists>configs' obss.
        create_database_from_pgn E files' F P sw els = Inr configs'
      \<and> fst ` set configs' = fst ` set configs
      \<and> (\<forall>k m. move_count configs' k m = move_count configs k m)
      \<and> map_raise (observed E F sw els) (concat files) = Inr obss
      \<and> (\<forall>k m. k \<in> fst ` set configs \<longrightarrow>
            move_count configs k m = count_list (concat obss) (k, m))
      \<and> (P = [] \<longrightarrow> fst ` set configs = fst ` set (concat obss))"
proof -
  let ?f = "observed E F sw els"
  from run obtain obss where obss: "map_raise ?f (concat files) = Inr obss"
    and cfg: "configs = post_collection P (fold record_pair (concat obss) [])"
    by (auto simp: create_database_observed split: sum.splits)
  have "mset (concat files') = mset (concat files)"
    using perm mset_concat_cong [of files' files] by blast
  from map_raise_permuted [OF obss this] obtain obss'
    where obss': "map_raise ?f (concat files') = Inr obss'" and m: "mset obss' = mset obss"
    by blast
  have mc: "mset (concat obss') = mset (concat obss)"
    using m by (rule mset_concat_cong)
  define A where "A = fold record_pair (concat obss) []"
  define B where "B = fold record_pair (concat obss') []"
  have dA: "distinct (map fst A)" and dB: "distinct (map fst B)"
    unfolding A_def B_def by (simp_all add: distinct_fold)
  have pA: "positive_counts A" and pB: "positive_counts B"
    unfolding A_def B_def by (simp_all add: positive_fold positive_empty)
  have cA: "\<And>k m. move_count A k m = count_list (concat obss) (k, m)"
    unfolding A_def by (simp add: move_count_fold move_count_empty)
  have cB: "\<And>k m. move_count B k m = count_list (concat obss') (k, m)"
    unfolding B_def by (simp add: move_count_fold move_count_empty)
  have counts: "\<And>k m. move_count B k m = move_count A k m"
    using count_list_mset [OF mc] by (simp add: cA cB)
  have kA: "fst ` set A = fst ` set (concat obss)"
    unfolding A_def by (simp add: keys_fold)
  have kB: "fst ` set B = fst ` set (concat obss')"
    unfolding B_def by (simp add: keys_fold)
  have "set (concat obss') = set (concat obss)"
    using mc by (metis set_mset_mset)
  then have keys: "fst ` set B = fst ` set A" by (simp add: kA kB)
  have run': "create_database_from_pgn E files' F P sw els = Inr (post_collection P B)"
    by (simp add: create_database_observed obss' B_def)
  have c: "configs = post_collection P A" by (simp add: cfg A_def)
  from post_collection_same [OF dB dA pB pA keys counts resp]
  have same: "fst ` set (post_collection P B) = fst ` set (post_collection P A)"
    "\<forall>k m. move_count (post_collection P B) k m = move_count (post_collection P A) k m"
    by blast+
  have obs: "\<forall>k m. k \<in> fst ` set configs \<longrightarrow>
      move_count configs k m = count_list (concat obss) (k, m)"
    unfolding c using move_count_post_collection [OF dA] cA by simp
  have nop: "P = [] \<longrightarrow> fst ` set configs = fst ` set (concat obss)"
    unfolding c by (simp add: post_collection_def kA)
  show ?thesis
    using run' same obss obs nop unfolding c by blast
qed

lemma toy_keys:
  "white_move_string toy_engine True [] = Inr ''8/K,w,Kq,-,0,1''"
  "white_move_string toy_engine True [0] = Inr ''pk/8,w,Qk,-,0,1''"
  "stored_elements [0, 2, 3] ''8/K,w,Kq,-,0,1'' = ''8/K,Kq,-''"
  "stored_elements [0, 2, 3] ''pk/8,w,Qk,-,0,1'' = ''pk/8,Qk,-''"
  by (simp_all add: white_move_string_def toy_engine_def toy_fen_def black_fen_to_white_def
      split_ws_def is_space_def mirror_fields_def ep_mirror_def mirror_rows_def split_on_def
      swapcase_def swapcase_char_eval castling_swap_def stored_elements_def
      enumerate_eq_zip upt_rec)

lemma toy_visit:
  "visit_move toy_engine [] True [0, 2, 3] ([], cfg) m
     = Inr ([m], configs_record ''8/K,Kq,-'' m cfg)"
  "visit_move toy_engine [] True [0, 2, 3] ([0], cfg) m
     = Inr ([0, m], configs_record ''pk/8,Qk,-'' m cfg)"
  by (simp_all add: visit_move_def toy_keys) (simp_all add: toy_engine_def)

lemma toy_start: "board_start toy_engine = []"
  by (simp add: toy_engine_def)

lemma toy_post:
  "n_man_filter_creator 3 ''8/K,Kq,-'' d" "\<not> n_man_filter_creator 3 ''pk/8,Qk,-'' d"
  by (simp_all add: n_man_filter_creator_def)

theorem aggregation_order_independent_witness:
  "create_database_from_pgn toy_engine [[[0, 1]], [[0, 2]]] [] [n_man_filter_creator 3]
       True [0, 2, 3]
     = Inr [(''pk/8,Qk,-'', BoardInfo [(1, 1), (2, 1)])]
   \<and> mset [[[0, 2]], [[0, 1 :: nat]]] = mset [[[0, 1]], [[0, 2]]]
   \<and> create_database_from_pgn toy_engine [[[0, 2]], [[0, 1]]] [] [n_man_filter_creator 3]
       True [0, 2, 3]
     = Inr [(''pk/8,Qk,-'', BoardInfo [(2, 1), (1, 1)])]
   \<and> (\<forall>k m. move_count [(''pk/8,Qk,-'', BoardInfo [(2, 1), (1 :: nat, 1)])] k m
             = move_count [(''pk/8,Qk,-'', BoardInfo [(1, 1), (2, 1)])] k m)
   \<and> mset (concat [[[0, 2], [0, 1 :: nat]]]) = mset (concat [[[0, 1]], [[0, 2]]])
   \<and> create_database_from_pgn toy_engine [[[0, 2], [0, 1]]] [] [n_man_filter_creator 3]
       True [0, 2, 3]
     = Inr [(''pk/8,Qk,-'', BoardInfo [(2, 1), (1, 1)])]"
proof -
  let ?P = "[n_man_filter_creator 3 :: string \<Rightarrow> nat BoardInfo \<Rightarrow> bool]"
  have run: "create_database_from_pgn toy_engine [[[0, 1]], [[0, 2]]] [] ?P True [0, 2, 3]
     = Inr [(''pk/8,Qk,-'', BoardInfo [(1, 1), (2, 1)])]"
    by (simp add: create_database_from_pgn_def toy_start toy_visit post_collection_def
        to_delete_def configs_del_def toy_post BoardInfo_init_def BoardInfo_update_def)
  have run': "create_database_from_pgn toy_engine [[[0, 2]], [[0, 1]]] [] ?P True [0, 2, 3]
     = Inr [(''pk/8,Qk,-'', BoardInfo [(2, 1), (1, 1)])]"
    by (simp add: create_database_from_pgn_def toy_start toy_visit post_collection_def
        to_delete_def configs_del_def toy_post BoardInfo_init_def BoardInfo_update_def)
  have run'': "create_database_from_pgn toy_engine [[[0, 2], [0, 1]]] [] ?P True [0, 2, 3]
     = Inr [(''pk/8,Qk,-'', BoardInfo [(2, 1), (1, 1)])]"
    by (simp add: create_database_from_pgn_def toy_start toy_visit post_collection_def
        to_delete_def configs_del_def toy_post BoardInfo_init_def BoardInfo_update_def)
  have perm: "mset [[[0, 2]], [[0, 1 :: nat]]] = mset [[[0, 1]], [[0, 2]]]"
    by (simp add: add.commute)
  have perm': "mset (concat [[[0, 2], [0, 1 :: nat]]]) = mset (concat [[[0, 1]], [[0, 2]]])"
    by (simp add: add.commute)
  have resp: "\<forall>f \<in> set ?P. \<forall>k d d'. map_of (moves d) = map_of (moves d') \<longrightarrow> f k d = f k d'"
    by (simp add: n_man_filter_creator_def)
  from aggregation_order_independent [OF run disjI1 [OF perm] resp] run'
  have "\<forall>k m. move_count [(''pk/8,Qk,-'', BoardInfo [(2, 1), (1 :: nat, 1)])] k m
             = move_count [(''pk/8,Qk,-'', BoardInfo [(1, 1), (2, 1)])] k m"
    by auto
  then show ?thesis using run run' run'' perm perm' by blast
qed

text \<open>
  The claim as stated fails for a post-collection filter that reads the insertion order
  of \<open>data.moves\<close>. Two files of one game each reach the same position after the move 0
  and continue with the moves 1 and 2. With the filter that is true when the first move
  of an entry is 1, the run over the files in one order deletes the entry of that
  position and the run in the other order keeps it, so the counts of the two final
  dictionaries differ.
\<close>

theorem aggregation_order_counterexample:
  "mset [[[0, 2]], [[0, 1 :: nat]]] = mset [[[0, 1]], [[0, 2]]]
   \<and> create_database_from_pgn toy_engine [[[0, 1]], [[0, 2]]] [] [first_move_is 1]
       True [0, 2, 3]
     = Inr [(''8/K,Kq,-'', BoardInfo [(0, 2)])]
   \<and> create_database_from_pgn toy_engine [[[0, 2]], [[0, 1]]] [] [first_move_is 1]
       True [0, 2, 3]
     = Inr [(''8/K,Kq,-'', BoardInfo [(0, 2)]), (''pk/8,Qk,-'', BoardInfo [(2, 1), (1, 1)])]
   \<and> move_count [(''8/K,Kq,-'', BoardInfo [(0 :: nat, 2)])] ''pk/8,Qk,-'' 1 = 0
   \<and> move_count [(''8/K,Kq,-'', BoardInfo [(0, 2)]),
                  (''pk/8,Qk,-'', BoardInfo [(2, 1), (1 :: nat, 1)])] ''pk/8,Qk,-'' 1 = 1"
proof -
  let ?P = "[first_move_is (1 :: nat)]"
  have run: "create_database_from_pgn toy_engine [[[0, 1]], [[0, 2]]] [] ?P True [0, 2, 3]
     = Inr [(''8/K,Kq,-'', BoardInfo [(0, 2)])]"
    by (simp add: create_database_from_pgn_def toy_start toy_visit post_collection_def
        to_delete_def configs_del_def first_move_is_def BoardInfo_init_def
        BoardInfo_update_def)
  have run': "create_database_from_pgn toy_engine [[[0, 2]], [[0, 1]]] [] ?P True [0, 2, 3]
     = Inr [(''8/K,Kq,-'', BoardInfo [(0, 2)]),
            (''pk/8,Qk,-'', BoardInfo [(2, 1), (1, 1)])]"
    by (simp add: create_database_from_pgn_def toy_start toy_visit post_collection_def
        to_delete_def configs_del_def first_move_is_def BoardInfo_init_def
        BoardInfo_update_def)
  have perm: "mset [[[0, 2]], [[0, 1 :: nat]]] = mset [[[0, 1]], [[0, 2]]]"
    by (simp add: add.commute)
  have c: "move_count [(''8/K,Kq,-'', BoardInfo [(0 :: nat, 2)])] ''pk/8,Qk,-'' 1 = 0"
    "move_count [(''8/K,Kq,-'', BoardInfo [(0, 2)]),
                 (''pk/8,Qk,-'', BoardInfo [(2, 1), (1 :: nat, 1)])] ''pk/8,Qk,-'' 1 = 1"
    by (simp_all add: move_count_def)
  show ?thesis using run run' perm c by blast
qed

subsection \<open>Rounding to binary64\<close>

lemma binade_eqI:
  assumes lo: "2 powi e \<le> \<bar>q\<bar>" and hi: "\<bar>q\<bar> < 2 powi (e + 1)"
  shows "binade q = e"
proof (cases "0 \<le> e")
  case True
  then obtain k where k: "e = int k" by (metis nonneg_int_cases)
  let ?n = "\<lfloor>\<bar>q\<bar>\<rfloor>"
  have lo': "(2 :: rat) ^ k \<le> \<bar>q\<bar>" using lo by (simp add: k)
  have "(1 :: rat) \<le> 2 ^ k" by simp
  with lo' have one: "1 \<le> \<bar>q\<bar>" by linarith
  from lo' have "of_int (2 ^ k) \<le> \<bar>q\<bar>" by simp
  then have a: "2 ^ k \<le> ?n" by (simp only: le_floor_iff)
  have "int k + 1 = int (Suc k)" by simp
  then have "\<bar>q\<bar> < (2 :: rat) ^ Suc k" using hi unfolding k by (simp only: power_int_of_nat)
  then have "\<bar>q\<bar> < of_int (2 ^ Suc k)" by simp
  then have b: "?n < 2 ^ Suc k" by (simp only: floor_less_iff)
  have "bitlen ?n = int k + 1"
  proof (rule antisym)
    show "bitlen ?n \<le> int k + 1" using b by (simp add: bitlen_le_iff_power nat_add_distrib)
    show "int k + 1 \<le> bitlen ?n" using a by (simp add: bitlen_ge_iff_power nat_add_distrib)
  qed
  with one show ?thesis by (simp add: binade_def k)
next
  case False
  then obtain k where k: "e = - int (Suc k)"
    by (metis neg_int_cases of_nat_Suc not0_implies_Suc of_nat_0 less_irrefl not_le)
  let ?r = "1 / \<bar>q\<bar>"
  let ?c = "\<lceil>?r\<rceil>"
  have lo': "1 / 2 ^ Suc k \<le> \<bar>q\<bar>"
    using lo unfolding k by (simp add: power_int_minus divide_simps del: of_nat_Suc power_Suc)
  have e1: "e + 1 = - int k" by (simp add: k)
  have hi': "\<bar>q\<bar> < 1 / 2 ^ k"
    using hi unfolding e1 by (simp add: power_int_minus divide_simps)
  have "(1 :: rat) / 2 ^ k \<le> 1" by simp
  with hi' have small: "\<not> 1 \<le> \<bar>q\<bar>" by linarith
  have pos: "0 < \<bar>q\<bar>"
  proof -
    have "(0 :: rat) < 1 / 2 ^ Suc k" by simp
    with lo' show ?thesis by linarith
  qed
  have "?r \<le> 2 ^ Suc k" using lo' pos by (simp add: divide_simps mult.commute)
  then have "?r \<le> of_int (2 ^ Suc k)" by simp
  then have a: "?c \<le> 2 ^ Suc k" by (simp only: ceiling_le_iff)
  have "2 ^ k < ?r" using hi' pos by (simp add: divide_simps mult.commute)
  then have "of_int (2 ^ k) < ?r" by simp
  then have b: "2 ^ k < ?c" by (simp only: less_ceiling_iff)
  have "bitlen (?c - 1) = int k + 1"
  proof (rule antisym)
    show "bitlen (?c - 1) \<le> int k + 1"
      using a by (simp add: bitlen_le_iff_power nat_add_distrib)
    show "int k + 1 \<le> bitlen (?c - 1)"
      using b by (simp add: bitlen_ge_iff_power nat_add_distrib)
  qed
  with small show ?thesis by (simp add: binade_def k)
qed


lemma round_half_even_eqI:
  assumes "\<bar>x - of_int m\<bar> < 1 / 2 \<or> \<bar>x - of_int m\<bar> = 1 / 2 \<and> even m"
  shows "round_half_even x = m"
proof (cases "of_int m \<le> x")
  case True
  with assms have "x < of_int m + 1" by linarith
  with True have f: "\<lfloor>x\<rfloor> = m" by (simp add: floor_unique)
  have "x - of_int m < 1 / 2 \<or> x - of_int m = 1 / 2 \<and> even m" using assms True by linarith
  then show ?thesis by (auto simp: round_half_even_def f)
next
  case False
  then have lt: "x < of_int m" by simp
  have m1: "(of_int (m - 1) :: rat) = of_int m - 1" by simp
  have "of_int (m - 1) \<le> x" "x < of_int (m - 1) + 1"
    unfolding m1 using assms lt by linarith+
  then have f: "\<lfloor>x\<rfloor> = m - 1" by (rule floor_unique)
  have "1 / 2 < x - of_int (m - 1) \<or> x - of_int (m - 1) = 1 / 2 \<and> even m"
    unfolding m1 using assms lt by linarith
  then show ?thesis by (auto simp: round_half_even_def f)
qed

lemma round_double_eqI:
  assumes lo: "2 powi e \<le> \<bar>q\<bar>" and hi: "\<bar>q\<bar> < 2 powi (e + 1)"
    and near: "\<bar>q / 2 powi (max e (- 1022) - 52) - of_int m\<bar> < 1 / 2
               \<or> \<bar>q / 2 powi (max e (- 1022) - 52) - of_int m\<bar> = 1 / 2 \<and> even m"
    and fin: "\<bar>of_int m * 2 powi (max e (- 1022) - 52)\<bar> < (2 :: rat) ^ 1024"
  shows "round_double q = Finite (of_int m * 2 powi (max e (- 1022) - 52))"
proof -
  have "(0 :: rat) < 2 powi e" by simp
  with lo have "0 < \<bar>q\<bar>" by linarith
  then have q: "q \<noteq> 0" by simp
  have b: "binade q = e" using lo hi by (rule binade_eqI)
  have r: "round_half_even (q / 2 powi (max e (- 1022) - 52)) = m"
    using near by (rule round_half_even_eqI)
  have n: "\<not> (2 :: rat) ^ 1024 \<le> \<bar>of_int m * 2 powi (max e (- 1022) - 52)\<bar>"
    using fin by (simp only: not_le)
  show ?thesis
    unfolding round_double_def Let_def b r using q n by (simp only: if_False)
qed

lemma float_literals:
  "round_double (7 / 10) = Finite (3152519739159347 / 4503599627370496)"
  "round_double (1 / 10) = Finite (3602879701896397 / 36028797018963968)"
  "round_double (2 / 10) = Finite (3602879701896397 / 18014398509481984)"
  "round_double (29 / 100) = Finite (5224175567749775 / 18014398509481984)"
  "round_double (1 / 5) = Finite (3602879701896397 / 18014398509481984)"
  using round_double_eqI [of "- 1" "7 / 10" 6305039478318694]
    round_double_eqI [of "- 4" "1 / 10" 7205759403792794]
    round_double_eqI [of "- 3" "2 / 10" 7205759403792794]
    round_double_eqI [of "- 2" "29 / 100" 5224175567749775]
    round_double_eqI [of "- 3" "1 / 5" 7205759403792794]
  by (simp_all add: power_int_minus)

lemma float_of_ints:
  "float_of_int 100 = Inr (Finite 100)" "float_of_int 90 = Inr (Finite 90)"
  "float_of_int 10 = Inr (Finite 10)"
  using round_double_eqI [of 6 100 7036874417766400]
    round_double_eqI [of 6 90 6333186975989760]
    round_double_eqI [of 3 10 5629499534213120]
  by (simp_all add: power_int_minus float_of_int_def)

lemma float_products:
  "round_double (78812993478983675 / 1125899906842624) = Finite 70"
  "round_double (90071992547409925 / 9007199254740992) = Finite 10"
  "round_double (90071992547409925 / 4503599627370496) = Finite 20"
  "round_double (141863388262170615 / 2251799813685248)
     = Finite (8866461766385663 / 140737488355328)"
  "round_double (130604389193744375 / 4503599627370496)
     = Finite (8162774324609023 / 281474976710656)"
  "round_double (15762598695796735 / 2251799813685248) = Finite 7"
  "round_double (18014398509481985 / 18014398509481984) = Finite 1"
  "round_double (18014398509481985 / 9007199254740992) = Finite 2"
  using round_double_eqI [of 6 "78812993478983675 / 1125899906842624" 4925812092436480]
    round_double_eqI [of 3 "90071992547409925 / 9007199254740992" 5629499534213120]
    round_double_eqI [of 4 "90071992547409925 / 4503599627370496" 5629499534213120]
    round_double_eqI [of 5 "141863388262170615 / 2251799813685248" 8866461766385663]
    round_double_eqI [of 4 "130604389193744375 / 4503599627370496" 8162774324609023]
    round_double_eqI [of 2 "15762598695796735 / 2251799813685248" 7881299347898368]
    round_double_eqI [of 0 "18014398509481985 / 18014398509481984" 4503599627370496]
    round_double_eqI [of 1 "18014398509481985 / 9007199254740992" 4503599627370496]
  by (simp_all add: power_int_minus)

lemma slice_size_examples:
  "slice_size (PyFloat (round_double (7 / 10))) 100 = Inr 70"
  "slice_size (PyFloat (round_double (1 / 10))) 100 = Inr 10"
  "slice_size (PyFloat (round_double (2 / 10))) 100 = Inr 20"
  "slice_size (PyFloat (round_double (7 / 10))) 90 = Inr 62"
  "slice_size (PyFloat (round_double (29 / 100))) 100 = Inr 28"
  "slice_size (PyFloat (round_double (7 / 10))) 10 = Inr 7"
  "slice_size (PyFloat (round_double (1 / 10))) 10 = Inr 1"
  "slice_size (PyFloat (round_double (2 / 10))) 10 = Inr 2"
  "slice_size (PyFloat (round_double (1 / 5))) 100 = Inr 20"
  "slice_size (PyFloat (round_double (1 / 5))) 10 = Inr 2"
proof -
  have f: "\<lfloor>8866461766385663 / 140737488355328 :: rat\<rfloor> = 62"
    "\<lfloor>8162774324609023 / 281474976710656 :: rat\<rfloor> = 28"
    by (rule floor_unique; simp)+
  show "slice_size (PyFloat (round_double (7 / 10))) 100 = Inr 70"
    "slice_size (PyFloat (round_double (1 / 10))) 100 = Inr 10"
    "slice_size (PyFloat (round_double (2 / 10))) 100 = Inr 20"
    "slice_size (PyFloat (round_double (7 / 10))) 90 = Inr 62"
    "slice_size (PyFloat (round_double (29 / 100))) 100 = Inr 28"
    "slice_size (PyFloat (round_double (7 / 10))) 10 = Inr 7"
    "slice_size (PyFloat (round_double (1 / 10))) 10 = Inr 1"
    "slice_size (PyFloat (round_double (2 / 10))) 10 = Inr 2"
    "slice_size (PyFloat (round_double (1 / 5))) 100 = Inr 20"
    "slice_size (PyFloat (round_double (1 / 5))) 10 = Inr 2"
    by (simp_all add: slice_size_def float_literals float_of_ints float_products f)
qed

lemma slice_size_int: "slice_size (PyInt r) n = Inr (nat (r * int n))"
  by (simp add: slice_size_def)

subsection \<open>The loops of the writer\<close>

lemma write_entries_take:
  assumes "\<forall>e \<in> set it. body e = Inr (out e)" and "k \<le> length it" and "frequency \<noteq> 0"
  shows "write_entries body frequency k it = Inr (concat (map out (take k it)), drop k it)"
  using assms(1,2)
proof (induction k arbitrary: it)
  case 0
  show ?case by simp
next
  case (Suc k)
  then obtain e rest where it: "it = e # rest" by (cases it) auto
  have "write_entries body frequency k rest = Inr (concat (map out (take k rest)), drop k rest)"
    using Suc.IH [of rest] Suc.prems it by simp
  moreover have "body e = Inr (out e)" using Suc.prems(1) it by simp
  ultimately show ?case using assms(3) by (simp add: it)
qed

lemma write_entries_exhausted:
  assumes "\<forall>e \<in> set it. body e = Inr (out e)" and "length it < k" and "frequency \<noteq> 0"
  shows "write_entries body frequency k it = Inl StopIteration"
  using assms(1,2)
proof (induction k arbitrary: it)
  case 0
  then show ?case by simp
next
  case (Suc k)
  show ?case
  proof (cases it)
    case Nil
    then show ?thesis using assms(3) by simp
  next
    case (Cons e rest)
    have "write_entries body frequency k rest = Inl StopIteration"
      using Suc.IH [of rest] Suc.prems Cons by simp
    moreover have "body e = Inr (out e)" using Suc.prems(1) Cons by simp
    ultimately show ?thesis using assms(3) by (simp add: Cons)
  qed
qed

lemma write_entries_zero_frequency:
  "0 < k \<Longrightarrow> write_entries body 0 k it = Inl ZeroDivisionError"
  by (cases k) simp_all

lemma slices_concat: "concat (slices ns xs) = take (sum_list ns) xs"
proof (induction ns arbitrary: xs)
  case Nil
  show ?case by simp
next
  case (Cons n ns)
  show ?case by (simp add: Cons.IH take_add)
qed

lemma slices_lengths:
  "sum_list ns \<le> length xs \<Longrightarrow> map length (slices ns xs) = ns"
proof (induction ns arbitrary: xs)
  case Nil
  show ?case by simp
next
  case (Cons n ns)
  then show ?case by simp
qed

lemma slices_length: "length (slices ns xs) = length ns"
  by (induction ns arbitrary: xs) simp_all

lemma entry_writes_ok:
  assumes "moves d \<noteq> []"
  shows "entry_writes W flag (k, d) = Inr (entry_output W flag (k, d))"
proof -
  obtain m n rest where "moves d = (m, n) # rest" using assms by (cases "moves d") auto
  then have "\<exists>ws. deep_pink_writes W k d = Inr ws"
    by (simp add: deep_pink_writes_def most_chosen_moves_def Let_def)
  then show ?thesis
    by (auto simp: entry_output_def entry_writes_def)
qed

lemma slice_sizes_Cons:
  assumes "slice_sizes n ((fname, ratio, flag) # dests) = Inr sizes"
  obtains k ks where "slice_size ratio n = Inr k" and "slice_sizes n dests = Inr ks"
    and "sizes = k # ks"
  using assms by (auto simp: slice_sizes_def split: sum.splits)

lemma destinations_loop_slices:
  assumes "\<forall>(k, d) \<in> set it. moves d \<noteq> []"
    and "slice_sizes n dests = Inr sizes"
    and "sum_list sizes \<le> length it"
    and "print_frequency W \<noteq> 0"
  shows "destinations_loop W n dests it
     = Inr (map (\<lambda>((file, ratio, flag), sl). concat (map (entry_output W flag) sl))
                (zip dests (slices sizes it)))"
  using assms(1-3)
proof (induction dests arbitrary: it sizes)
  case Nil
  then show ?case by (simp add: slice_sizes_def)
next
  case (Cons dest dests)
  obtain fname ratio flag where dest: "dest = (fname, ratio, flag)" by (cases dest) auto
  from Cons.prems(2) obtain k ks where sk: "slice_size ratio n = Inr k"
    and sks: "slice_sizes n dests = Inr ks" and sizes: "sizes = k # ks"
    unfolding dest by (rule slice_sizes_Cons)
  have k: "k \<le> length it" and rest: "sum_list ks \<le> length (drop k it)"
    using Cons.prems(3) by (simp_all add: sizes)
  have ok: "\<forall>e \<in> set it. entry_writes W flag e = Inr (entry_output W flag e)"
    using Cons.prems(1) entry_writes_ok by fastforce
  have w: "write_entries (entry_writes W flag) (print_frequency W) k it
      = Inr (concat (map (entry_output W flag) (take k it)), drop k it)"
    using write_entries_take [OF ok k assms(4)] .
  have "\<forall>(k, d) \<in> set (drop k it). moves d \<noteq> []"
    using Cons.prems(1) by (meson in_set_dropD)
  from Cons.IH [OF this sks rest] w sk show ?case
    by (simp add: dest sizes)
qed

lemma destinations_loop_exhausted:
  assumes "\<forall>(k, d) \<in> set it. moves d \<noteq> []"
    and "slice_sizes n dests = Inr sizes"
    and "length it < sum_list sizes"
    and "print_frequency W \<noteq> 0"
  shows "destinations_loop W n dests it = Inl StopIteration"
  using assms(1-3)
proof (induction dests arbitrary: it sizes)
  case Nil
  then show ?case by (simp add: slice_sizes_def)
next
  case (Cons dest dests)
  obtain fname ratio flag where dest: "dest = (fname, ratio, flag)" by (cases dest) auto
  from Cons.prems(2) obtain k ks where sk: "slice_size ratio n = Inr k"
    and sks: "slice_sizes n dests = Inr ks" and sizes: "sizes = k # ks"
    unfolding dest by (rule slice_sizes_Cons)
  have ok: "\<forall>e \<in> set it. entry_writes W flag e = Inr (entry_output W flag e)"
    using Cons.prems(1) entry_writes_ok by fastforce
  show ?case
  proof (cases "k \<le> length it")
    case False
    then have "write_entries (entry_writes W flag) (print_frequency W) k it = Inl StopIteration"
      using write_entries_exhausted [OF ok _ assms(4)] by simp
    then show ?thesis using sk by (simp add: dest)
  next
    case True
    have w: "write_entries (entry_writes W flag) (print_frequency W) k it
      = Inr (concat (map (entry_output W flag) (take k it)), drop k it)"
      using write_entries_take [OF ok True assms(4)] .
    have "length (drop k it) < sum_list ks"
      using Cons.prems(3) True by (simp add: sizes)
    moreover have "\<forall>(k, d) \<in> set (drop k it). moves d \<noteq> []"
      using Cons.prems(1) by (meson in_set_dropD)
    ultimately have "destinations_loop W n dests (drop k it) = Inl StopIteration"
      using Cons.IH sks by blast
    with w sk show ?thesis by (simp add: dest)
  qed
qed

lemma slices_distinct:
  assumes "distinct (map fst xs)"
  shows "distinct (map fst (concat (slices ns xs)))"
  using assms by (simp add: slices_concat take_map [symmetric])

lemma entry_output_plain: "entry_output W False (key, d) = [key @ [CHR 0x0A]]"
  by (simp add: entry_output_def entry_writes_def)

lemma slice_sizes_ratios:
  assumes "length filenames = length file_ratios"
    and "length for_deep_pink_loss = length file_ratios"
  shows "slice_sizes n (zip filenames (zip file_ratios for_deep_pink_loss))
     = map_raise (\<lambda>ratio. slice_size ratio n) file_ratios"
proof -
  have m: "map (fst \<circ> snd) (zip filenames (zip file_ratios for_deep_pink_loss)) = file_ratios"
    using assms by (simp add: map_fst_zip map_snd_zip flip: map_map)
  have "slice_sizes n dests = map_raise (\<lambda>ratio. slice_size ratio n) (map (fst \<circ> snd) dests)"
    for dests :: "('a \<times> py_num \<times> bool) list"
    by (induction dests) (auto simp: slice_sizes_def split: sum.splits)
  then have "slice_sizes n (zip filenames (zip file_ratios for_deep_pink_loss))
      = map_raise (\<lambda>ratio. slice_size ratio n)
          (map (fst \<circ> snd) (zip filenames (zip file_ratios for_deep_pink_loss)))"
    by blast
  then show ?thesis by (simp only: m)
qed

text \<open>
  Claim C2, as amended. The size of a destination is
  \<open>int(math.floor(ratio_i * N))\<close>, where the product is the floating-point one for a
  \<open>float\<close> ratio, and a negative number counts as 0. Let these sizes be defined for all
  zipped destinations (no product is infinite or NaN), let \<open>print_frequency\<close> be other
  than 0 and let every entry hold a move. When the sizes sum to at most \<open>N\<close>, the writer
  gives destination \<open>i\<close> what the entries of the \<open>i\<close>-th slice produce, where the slices
  are contiguous, in order, of exactly these sizes, and together the first entries of
  the corpus: no entry is in two slices and the entries after the last slice are written
  nowhere. A plain destination gets the key of each entry of its slice on a line. When
  the sizes sum to more than \<open>N\<close>, the writer raises StopIteration. With \<open>N = 100\<close> and
  the floats 0.7, 0.1 and 0.2 the sizes are 70, 10 and 20.
\<close>

theorem writer_slices:
  assumes "\<forall>(k, d) \<in> set dict. moves d \<noteq> []"
    and "print_frequency W \<noteq> 0"
    and "dests = zip filenames (zip file_ratios for_deep_pink_loss)"
    and "slice_sizes (length dict) dests = Inr sizes"
  shows "(sum_list sizes \<le> length dict \<longrightarrow>
            writer W file_ratios for_deep_pink_loss dict filenames
              = Inr (map (\<lambda>((file, ratio, flag), sl). concat (map (entry_output W flag) sl))
                         (zip dests (slices sizes dict)))
          \<and> map length (slices sizes dict) = sizes)
       \<and> concat (slices sizes dict) = take (sum_list sizes) dict
       \<and> (distinct (map fst dict) \<longrightarrow> distinct (map fst (concat (slices sizes dict))))
       \<and> (length dict < sum_list sizes \<longrightarrow>
            writer W file_ratios for_deep_pink_loss dict filenames = Inl StopIteration)
       \<and> (length filenames = length file_ratios
            \<and> length for_deep_pink_loss = length file_ratios \<longrightarrow>
            map (\<lambda>ratio. slice_size ratio (length dict)) file_ratios = map Inr sizes)
       \<and> (\<forall>key d. entry_output W False (key, d) = [key @ [CHR 0x0A]])
       \<and> map (\<lambda>ratio. slice_size ratio 100)
            [PyFloat (round_double (7 / 10)), PyFloat (round_double (1 / 10)),
             PyFloat (round_double (2 / 10))]
          = [Inr 70, Inr 10, Inr 20]"
proof -
  have a: "sum_list sizes \<le> length dict \<longrightarrow>
            writer W file_ratios for_deep_pink_loss dict filenames
              = Inr (map (\<lambda>((file, ratio, flag), sl). concat (map (entry_output W flag) sl))
                         (zip dests (slices sizes dict)))
          \<and> map length (slices sizes dict) = sizes"
    using destinations_loop_slices [OF assms(1) assms(4) _ assms(2)]
    by (simp add: writer_def assms(3) slices_lengths)
  have b: "length dict < sum_list sizes \<longrightarrow>
            writer W file_ratios for_deep_pink_loss dict filenames = Inl StopIteration"
    using destinations_loop_exhausted [OF assms(1) assms(4) _ assms(2)]
    by (simp add: writer_def assms(3))
  have c: "length filenames = length file_ratios
            \<and> length for_deep_pink_loss = length file_ratios \<longrightarrow>
            map (\<lambda>ratio. slice_size ratio (length dict)) file_ratios = map Inr sizes"
    using assms(4) unfolding assms(3)
    by (auto simp: slice_sizes_ratios map_raise_Inr_iff)
  have d: "map (\<lambda>ratio. slice_size ratio 100)
            [PyFloat (round_double (7 / 10)), PyFloat (round_double (1 / 10)),
             PyFloat (round_double (2 / 10))]
          = [Inr 70, Inr 10, Inr 20]"
    by (simp only: list.map slice_size_examples)
  show ?thesis
    using a b c d slices_concat [of sizes dict] slices_distinct [of dict sizes]
      entry_output_plain [of W]
    by blast
qed

subsection \<open>The triplet expansion\<close>

lemma py_max_Max:
  fixes vs :: "nat list"
  assumes "vs \<noteq> []"
  shows "py_max vs = Inr (Max (set vs))"
proof (cases vs)
  case Nil
  with assms show ?thesis by simp
next
  case (Cons v rest)
  have "Max (set (v # rest)) = fold max rest v" by (rule Max.set_eq_fold)
  then show ?thesis using Cons by simp
qed

lemma most_chosen_moves_eq:
  assumes "moves d \<noteq> []"
  shows "most_chosen_moves d
     = Inr (filter (\<lambda>move. map_of (moves d) move = Some (Max (snd ` set (moves d))))
                   (map fst (moves d)))"
  using assms by (simp add: most_chosen_moves_def py_max_Max)

lemma swapcase_char_newline: "swapcase_char (CHR 0x0A) = CHR 0x0A"
  by code_simp

lemma switch_no_newline:
  assumes "CHR 0x0A \<notin> set s"
  shows "CHR 0x0A \<notin> set (switch_from_blacks_move s)"
proof -
  have "set (concat (rev (map (rank_row s) [0..<8]))) \<subseteq> set s"
    by (auto simp: rank_row_def dest: in_set_takeD in_set_dropD)
  then have "CHR 0x0A \<notin> set (concat (rev (map (rank_row s) [0..<8])))"
    using assms by blast
  then show ?thesis
    unfolding switch_from_blacks_move_def
    by (simp only: swapcase_mem swapcase_char_newline not_False_eq_True)
qed

lemma count_list_concat_map:
  assumes "\<forall>x \<in> set xs. count_list (f x) c = n"
  shows "count_list (concat (map f xs)) c = n * length xs"
  using assms by (induction xs) simp_all

lemma deep_pink_writes_records:
  assumes "moves cur_data \<noteq> []"
  shows "\<exists>chosen. most_chosen_moves cur_data = Inr chosen
     \<and> deep_pink_writes W cur_str cur_data
        = Inr (map (\<lambda>cmp. concat (map (\<lambda>move. triplet_record W cur_str move cmp) chosen))
                   (comparison_move_generator W (new_board W cur_str) cur_data))"
  using most_chosen_moves_eq [OF assms]
  by (simp add: deep_pink_writes_def Let_def triplet_record_def comp_def)

lemma triplet_record_newlines:
  assumes "\<forall>b. CHR 0x0A \<notin> set (board_to_str_fn W b)"
  shows "count_list (triplet_record W cur_str move cmp) (CHR 0x0A) = 1"
  using assms switch_no_newline
  by (simp add: triplet_record_def)

text \<open>
  Claim C3. For an entry written to a triplet destination, the writer emits one line
  for each pair of a most chosen move and a comparison move: the most chosen moves are
  all the moves of the entry whose count is the greatest count of the entry, ties
  included, and the comparison moves are what the generator yields on the entry's
  board. So the number of lines is the product of the two numbers. The board strings
  are taken to hold no line break, and the entry holds a move, as every
  \<open>BoardInfo\<close> does.
\<close>

theorem triplet_record_count:
  assumes "moves cur_data \<noteq> []" and "distinct (map fst (moves cur_data))"
    and "\<forall>b. CHR 0x0A \<notin> set (board_to_str_fn W b)"
  shows "\<exists>top_moves ws.
      most_chosen_moves cur_data = Inr top_moves
    \<and> distinct top_moves
    \<and> set top_moves
        = {move. map_of (moves cur_data) move = Some (Max (snd ` set (moves cur_data)))}
    \<and> entry_writes W True (cur_str, cur_data) = Inr ws
    \<and> ws = map (\<lambda>cmp. concat (map (\<lambda>move. triplet_record W cur_str move cmp) top_moves))
                (comparison_move_generator W (new_board W cur_str) cur_data)
    \<and> count_list (concat ws) (CHR 0x0A)
        = card {move. map_of (moves cur_data) move = Some (Max (snd ` set (moves cur_data)))}
          * length (comparison_move_generator W (new_board W cur_str) cur_data)"
proof -
  let ?M = "Max (snd ` set (moves cur_data))"
  let ?negs = "comparison_move_generator W (new_board W cur_str) cur_data"
  define top_moves where
    "top_moves = filter (\<lambda>move. map_of (moves cur_data) move = Some ?M) (map fst (moves cur_data))"
  define ws where
    "ws = map (\<lambda>cmp. concat (map (\<lambda>move. triplet_record W cur_str move cmp) top_moves)) ?negs"
  have top: "most_chosen_moves cur_data = Inr top_moves"
    using most_chosen_moves_eq [OF assms(1)] by (simp add: top_moves_def)
  have d: "distinct top_moves" using assms(2) by (simp add: top_moves_def)
  have s: "set top_moves = {move. map_of (moves cur_data) move = Some ?M}"
    by (auto simp: top_moves_def dest: map_of_SomeD intro: rev_image_eqI)
  have w: "entry_writes W True (cur_str, cur_data) = Inr ws"
    using deep_pink_writes_records [OF assms(1), of W cur_str] top
    by (auto simp: entry_writes_def ws_def)
  have one: "\<forall>cmp \<in> set ?negs.
      count_list (concat (map (\<lambda>move. triplet_record W cur_str move cmp) top_moves)) (CHR 0x0A)
        = length top_moves"
    using count_list_concat_map [of top_moves "\<lambda>move. triplet_record W cur_str move _" "CHR 0x0A" 1]
      triplet_record_newlines [OF assms(3)]
    by simp
  have "count_list (concat ws) (CHR 0x0A) = length top_moves * length ?negs"
    unfolding ws_def using count_list_concat_map [OF one] by simp
  moreover have "length top_moves = card (set top_moves)"
    using d by (simp add: distinct_card)
  ultimately have c: "count_list (concat ws) (CHR 0x0A)
      = card {move. map_of (moves cur_data) move = Some ?M} * length ?negs"
    by (simp add: s)
  show ?thesis using top d s w c ws_def by blast
qed

lemma toy_no_newline: "\<forall>b. CHR 0x0A \<notin> set (board_to_str_fn toy_writer_env b)"
  by (simp add: toy_writer_env_def)

lemma toy_switch:
  "switch_from_blacks_move ''kn'' = ''KN''" "switch_from_blacks_move ''kb'' = ''KB''"
  "switch_from_blacks_move ''kp'' = ''KP''" "switch_from_blacks_move ''kq'' = ''KQ''"
  "switch_from_blacks_move ''Nn'' = ''nN''" "switch_from_blacks_move ''Np'' = ''nP''"
  "switch_from_blacks_move ''Nq'' = ''nQ''"
  by (simp_all add: switch_from_blacks_move_def rank_row_def swapcase_def swapcase_char_eval
      upt_rec)

lemma toy_record:
  "triplet_record toy_writer_env ''k'' CHR ''n'' CHR ''p'' = ''kKNKP'' @ [CHR 0x0A]"
  "triplet_record toy_writer_env ''k'' CHR ''b'' CHR ''p'' = ''kKBKP'' @ [CHR 0x0A]"
  "triplet_record toy_writer_env ''k'' CHR ''n'' CHR ''q'' = ''kKNKQ'' @ [CHR 0x0A]"
  "triplet_record toy_writer_env ''k'' CHR ''b'' CHR ''q'' = ''kKBKQ'' @ [CHR 0x0A]"
  "triplet_record toy_writer_env ''N'' CHR ''n'' CHR ''p'' = ''NnNnP'' @ [CHR 0x0A]"
  "triplet_record toy_writer_env ''N'' CHR ''n'' CHR ''q'' = ''NnNnQ'' @ [CHR 0x0A]"
  by (simp_all add: triplet_record_def toy_writer_env_def toy_switch)

theorem triplet_record_count_witness:
  "moves (BoardInfo [(CHR ''n'', 3), (CHR ''b'', 3), (CHR ''r'', 1)]) \<noteq> []
   \<and> distinct (map fst (moves (BoardInfo [(CHR ''n'', 3), (CHR ''b'', 3), (CHR ''r'', 1)])))
   \<and> most_chosen_moves (BoardInfo [(CHR ''n'', 3), (CHR ''b'', 3), (CHR ''r'', 1)]) = Inr ''nb''
   \<and> comparison_move_generator toy_writer_env (new_board toy_writer_env ''k'')
        (BoardInfo [(CHR ''n'', 3), (CHR ''b'', 3), (CHR ''r'', 1)]) = ''pq''
   \<and> entry_writes toy_writer_env True
        (''k'', BoardInfo [(CHR ''n'', 3), (CHR ''b'', 3), (CHR ''r'', 1)])
       = Inr [''kKNKP'' @ [CHR 0x0A] @ ''kKBKP'' @ [CHR 0x0A],
              ''kKNKQ'' @ [CHR 0x0A] @ ''kKBKQ'' @ [CHR 0x0A]]
   \<and> count_list (concat [''kKNKP'' @ [CHR 0x0A] @ ''kKBKP'' @ [CHR 0x0A],
                           ''kKNKQ'' @ [CHR 0x0A] @ ''kKBKQ'' @ [CHR 0x0A]]) (CHR 0x0A) = 4"
proof -
  let ?d = "BoardInfo [(CHR ''n'', 3), (CHR ''b'', 3), (CHR ''r'', 1)]"
  have h1: "moves ?d \<noteq> []" by simp
  have h2: "distinct (map fst (moves ?d))" by simp
  have top: "most_chosen_moves ?d = Inr ''nb''"
    by (simp add: most_chosen_moves_def)
  have negs: "comparison_move_generator toy_writer_env (new_board toy_writer_env ''k'') ?d
      = ''pq''"
    by (simp add: toy_writer_env_def)
  from triplet_record_count [OF h1 h2 toy_no_newline, of "''k''"] obtain top_moves ws
    where t: "most_chosen_moves ?d = Inr top_moves"
      and w: "entry_writes toy_writer_env True (''k'', ?d) = Inr ws"
      and ws: "ws = map (\<lambda>cmp. concat (map (\<lambda>move. triplet_record toy_writer_env ''k'' move cmp)
                                              top_moves))
                        (comparison_move_generator toy_writer_env
                           (new_board toy_writer_env ''k'') ?d)"
    by blast
  have "top_moves = ''nb''" using t top by simp
  then have "ws = [''kKNKP'' @ [CHR 0x0A] @ ''kKBKP'' @ [CHR 0x0A],
                   ''kKNKQ'' @ [CHR 0x0A] @ ''kKBKQ'' @ [CHR 0x0A]]"
    using ws negs by (simp add: toy_record)
  with w have e: "entry_writes toy_writer_env True (''k'', ?d)
       = Inr [''kKNKP'' @ [CHR 0x0A] @ ''kKBKP'' @ [CHR 0x0A],
              ''kKNKQ'' @ [CHR 0x0A] @ ''kKBKQ'' @ [CHR 0x0A]]"
    by simp
  have c: "count_list (concat [''kKNKP'' @ [CHR 0x0A] @ ''kKBKP'' @ [CHR 0x0A],
                           ''kKNKQ'' @ [CHR 0x0A] @ ''kKBKQ'' @ [CHR 0x0A]]) (CHR 0x0A) = 4"
    by simp
  show ?thesis using h1 h2 top negs e c by blast
qed

text \<open>
  The claim as stated fails for ratios whose slices do not fit: with two destinations of
  ratio 1 and a corpus of one entry, the first destination takes the entry and the
  second one raises StopIteration.
\<close>

theorem writer_exhausted_counterexample:
  "slice_size (PyInt 1) 1 = Inr 1
   \<and> writer toy_writer_env [PyInt 1, PyInt 1] [False, False]
        [(''k'', BoardInfo [(CHR ''n'', 2)])] [''f1'', ''f2'']
       = Inl StopIteration"
proof -
  have s: "slice_size (PyInt 1) 1 = Inr 1" by (simp add: slice_size_def)
  let ?one = "[(''k'', BoardInfo [(CHR ''n'', 2::nat)])]"
  let ?dests = "zip [''f1'', ''f2''] (zip [PyInt 1, PyInt 1] [False, False])"
  have len: "length ?one = 1" by simp
  have g: "\<forall>(k, d) \<in> set ?one. moves d \<noteq> []" by simp
  have s': "slice_size (PyInt 1) (Suc 0) = Inr (Suc 0)" by (simp add: slice_size_def)
  have sz: "slice_sizes 1 ?dests = Inr [1, 1]" by (simp add: slice_sizes_def s')
  have f: "print_frequency toy_writer_env \<noteq> 0" by (simp add: toy_writer_env_def)
  have "length ?one < sum_list [1, 1 :: nat]" by simp
  from destinations_loop_exhausted [OF g sz this f]
  have "writer toy_writer_env [PyInt 1, PyInt 1] [False, False] ?one [''f1'', ''f2'']
      = Inl StopIteration"
    unfolding writer_def len .
  with s show ?thesis by simp
qed

theorem writer_slices_witness:
  "slice_sizes 10
       (zip [''f1'', ''f2'', ''f3'']
          (zip [PyFloat (round_double (7 / 10)), PyFloat (round_double (1 / 10)),
                PyFloat (round_double (2 / 10))]
               [False, True, False]))
     = Inr [7, 1, 2]
   \<and> writer toy_writer_env
        [PyFloat (round_double (7 / 10)), PyFloat (round_double (1 / 10)),
         PyFloat (round_double (2 / 10))]
        [False, True, False]
        [(''r'', BoardInfo [(CHR ''n'', 2)]), (''n'', BoardInfo [(CHR ''n'', 2)]),
         (''b'', BoardInfo [(CHR ''n'', 2)]), (''q'', BoardInfo [(CHR ''n'', 2)]),
         (''k'', BoardInfo [(CHR ''n'', 2)]), (''p'', BoardInfo [(CHR ''n'', 2)]),
         (''R'', BoardInfo [(CHR ''n'', 2)]), (''N'', BoardInfo [(CHR ''n'', 2)]),
         (''B'', BoardInfo [(CHR ''n'', 2)]), (''Q'', BoardInfo [(CHR ''n'', 2)])]
        [''f1'', ''f2'', ''f3'']
     = Inr [[''r'' @ [CHR 0x0A], ''n'' @ [CHR 0x0A], ''b'' @ [CHR 0x0A], ''q'' @ [CHR 0x0A],
             ''k'' @ [CHR 0x0A], ''p'' @ [CHR 0x0A], ''R'' @ [CHR 0x0A]],
            [''NnNnP'' @ [CHR 0x0A], ''NnNnQ'' @ [CHR 0x0A]],
            [''B'' @ [CHR 0x0A], ''Q'' @ [CHR 0x0A]]]
   \<and> print_frequency toy_writer_env = 10000
   \<and> slice_sizes 1 (zip [''f1'', ''f2''] (zip [PyInt 1, PyInt 1] [False, False]))
       = Inr [1, 1]
   \<and> writer toy_writer_env [PyInt 1, PyInt 1] [False, False]
        [(''k'', BoardInfo [(CHR ''n'', 2)])] [''f1'', ''f2'']
     = Inl StopIteration"
proof -
  let ?dict = "[(''r'', BoardInfo [(CHR ''n'', 2)]), (''n'', BoardInfo [(CHR ''n'', 2)]),
         (''b'', BoardInfo [(CHR ''n'', 2)]), (''q'', BoardInfo [(CHR ''n'', 2)]),
         (''k'', BoardInfo [(CHR ''n'', 2)]), (''p'', BoardInfo [(CHR ''n'', 2)]),
         (''R'', BoardInfo [(CHR ''n'', 2)]), (''N'', BoardInfo [(CHR ''n'', 2)]),
         (''B'', BoardInfo [(CHR ''n'', 2)]), (''Q'', BoardInfo [(CHR ''n'', 2::nat)])]"
  let ?ratios = "[PyFloat (round_double (7 / 10)), PyFloat (round_double (1 / 10)),
                  PyFloat (round_double (2 / 10))]"
  let ?dests = "zip [''f1'', ''f2'', ''f3''] (zip ?ratios [False, True, False])"
  have h1: "\<forall>(k, d) \<in> set ?dict. moves d \<noteq> []" by simp
  have f: "print_frequency toy_writer_env \<noteq> 0" by (simp add: toy_writer_env_def)
  have sz: "slice_sizes 10 ?dests = Inr [7, 1, 2]"
    by (simp add: slice_sizes_def slice_size_examples)
  have len: "length ?dict = 10" by simp
  have sz': "slice_sizes (length ?dict) ?dests = Inr [7, 1, 2]"
    unfolding len by (rule sz)
  have trip: "entry_output toy_writer_env True (''N'', BoardInfo [(CHR ''n'', 2)])
      = [''NnNnP'' @ [CHR 0x0A], ''NnNnQ'' @ [CHR 0x0A]]"
    by (simp add: entry_output_def entry_writes_def deep_pink_writes_def
        most_chosen_moves_def toy_writer_env_def toy_switch)
  from writer_slices [OF h1 f refl sz']
  have "writer toy_writer_env ?ratios [False, True, False] ?dict [''f1'', ''f2'', ''f3'']
      = Inr (map (\<lambda>((file, ratio, flag), sl). concat (map (entry_output toy_writer_env flag) sl))
                 (zip ?dests (slices [7, 1, 2] ?dict)))"
    by simp
  then have run: "writer toy_writer_env ?ratios [False, True, False] ?dict
          [''f1'', ''f2'', ''f3'']
      = Inr [[''r'' @ [CHR 0x0A], ''n'' @ [CHR 0x0A], ''b'' @ [CHR 0x0A], ''q'' @ [CHR 0x0A],
             ''k'' @ [CHR 0x0A], ''p'' @ [CHR 0x0A], ''R'' @ [CHR 0x0A]],
            [''NnNnP'' @ [CHR 0x0A], ''NnNnQ'' @ [CHR 0x0A]],
            [''B'' @ [CHR 0x0A], ''Q'' @ [CHR 0x0A]]]"
    by (simp add: entry_output_plain trip)
  let ?one = "[(''k'', BoardInfo [(CHR ''n'', 2::nat)])]"
  let ?dests1 = "zip [''f1'', ''f2''] (zip [PyInt 1, PyInt 1] [False, False])"
  have g1: "\<forall>(k, d) \<in> set ?one. moves d \<noteq> []" by simp
  have s': "slice_size (PyInt 1) (Suc 0) = Inr (Suc 0)" by (simp add: slice_size_def)
  have sz1: "slice_sizes 1 ?dests1 = Inr [1, 1]"
    by (simp add: slice_sizes_def s')
  have len1: "length ?one = 1" by simp
  have sz1': "slice_sizes (length ?one) ?dests1 = Inr [1, 1]"
    unfolding len1 by (rule sz1)
  from writer_slices [OF g1 f refl sz1']
  have stop: "writer toy_writer_env [PyInt 1, PyInt 1] [False, False] ?one [''f1'', ''f2'']
      = Inl StopIteration"
    by simp
  have pf: "print_frequency toy_writer_env = 10000" by (simp add: toy_writer_env_def)
  show ?thesis using sz run pf sz1 stop by blast
qed

subsection \<open>Splitting at cumulative counts\<close>

lemma np_split_from:
  "map (\<lambda>(st, en). take (en - st) (drop st ary)) (zip (st # indices) (indices @ [length ary]))
     = split_from ary st indices"
  by (induction indices arbitrary: st) simp_all

lemma np_split_split_from: "np_split ary indices = split_from ary 0 indices"
  by (simp add: np_split_def np_split_from)

lemma length_split_from: "length (split_from ary st indices) = Suc (length indices)"
  by (induction indices arbitrary: st) simp_all

lemma length_cumsum_from: "length (cumsum_from acc ns) = length ns"
  by (induction ns arbitrary: acc) simp_all

lemma butlast_cumsum_from:
  "butlast (cumsum_from acc (n # m # rest)) = (acc + n) # butlast (cumsum_from (acc + n) (m # rest))"
  by simp

lemma split_from_cumsum:
  assumes "ns \<noteq> []" and "length ary = acc + sum_list ns"
  shows "split_from ary acc (butlast (cumsum_from acc ns)) = slices ns (drop acc ary)"
  using assms
proof (induction ns arbitrary: acc)
  case Nil
  then show ?case by simp
next
  case (Cons n rest)
  show ?case
  proof (cases rest)
    case Nil
    then show ?thesis using Cons.prems by simp
  next
    case (Cons m rest')
    have ih: "split_from ary (acc + n) (butlast (cumsum_from (acc + n) rest))
        = slices rest (drop (acc + n) ary)"
      using Cons.IH [of "acc + n"] Cons.prems Cons by simp
    have "split_from ary acc (butlast (cumsum_from acc (n # rest)))
        = take n (drop acc ary) # split_from ary (acc + n) (butlast (cumsum_from (acc + n) rest))"
      unfolding Cons butlast_cumsum_from by simp
    then show ?thesis using ih by (simp add: add.commute)
  qed
qed

lemma concat_split_from_sorted:
  assumes "sorted (st # indices)"
  shows "concat (split_from ary st indices) = drop st ary"
  using assms
proof (induction indices arbitrary: st)
  case Nil
  show ?case by simp
next
  case (Cons i rest)
  have le: "st \<le> i" using Cons.prems by simp
  have "concat (split_from ary i rest) = drop i ary" using Cons.IH [of i] Cons.prems by simp
  moreover have "take (i - st) (drop st ary) @ drop i ary = drop st ary"
    using le by (metis append_take_drop_id drop_drop le_add_diff_inverse2 add.commute)
  ultimately show ?case by simp
qed

lemma sorted_cumsum_from: "sorted (acc # cumsum_from acc ns)"
proof (induction ns arbitrary: acc)
  case Nil
  show ?case by simp
next
  case (Cons n ns)
  have "sorted ((acc + n) # cumsum_from (acc + n) ns)" by (rule Cons.IH)
  then show ?case by auto
qed

lemma sorted_butlast_list: "sorted xs \<Longrightarrow> sorted (butlast xs)"
  by (simp add: butlast_conv_take sorted_wrt_take)

subsection \<open>The batch function\<close>

lemma map_raise_length: "map_raise f xs = Inr ys \<Longrightarrow> length ys = length xs"
  by (induction xs arbitrary: ys) (auto split: sum.splits)

lemma map_raise_values:
  assumes "map_raise f xs = Inr ys"
  shows "ys = map (\<lambda>x. case f x of Inl err \<Rightarrow> d | Inr y \<Rightarrow> y) xs"
  using assms by (induction xs arbitrary: ys) (auto split: sum.splits)

lemma children_zip:
  "concat (map (\<lambda>(b, m). map (c b) m) (zip (map g xs) (map (\<lambda>x. h (g x)) xs)))
     = concat (map (\<lambda>x. map (c (g x)) (h (g x))) xs)"
  by (induction xs) simp_all

lemma batch_unfold:
  assumes "map_raise (\<lambda>line. make_fen_white (line_to_fen_fn S line)) lines = Inr fens"
  shows "lines_to_serialized_example S lines =
     (if lines = [] then Inl ValueError
      else case map_raise (lookup_move (move_to_str_dict S))
                  (concat (map (\<lambda>line. generate_legal_moves S (line_board S line)) lines)) of
             Inl err \<Rightarrow> Inl err
           | Inr the_moves \<Rightarrow>
               map_raise
                 (\<lambda>(b, m, r). create_serialized_example (database_board_representation S b) m r)
                 (zip (map (line_board S) lines)
                    (zip (np_split the_moves (butlast (cumsum (move_counts S lines))))
                         (np_split (node_batch_eval_fn S (children_of S lines))
                            (butlast (cumsum (move_counts S lines)))))))"
proof -
  have fens: "fens = map (\<lambda>line. case make_fen_white (line_to_fen_fn S line) of
                                    Inl err \<Rightarrow> [] | Inr fen \<Rightarrow> fen) lines"
    using map_raise_values [OF assms] .
  have boards: "map (create_board_state_from_fen S) fens = map (line_board S) lines"
    by (simp add: fens line_board_def)
  have mvs: "map (generate_legal_moves S) (map (line_board S) lines)
      = map (\<lambda>line. generate_legal_moves S (line_board S line)) lines"
    by simp
  have counts: "map length (map (\<lambda>line. generate_legal_moves S (line_board S line)) lines)
      = move_counts S lines"
    by (simp add: move_counts_def comp_def)
  have ch: "concat (map (\<lambda>(b, m). map (copy_push S b) m)
              (zip (map (line_board S) lines)
                   (map (\<lambda>line. generate_legal_moves S (line_board S line)) lines)))
      = children_of S lines"
    unfolding children_of_def
    using children_zip [where c = "copy_push S" and g = "line_board S"
        and h = "generate_legal_moves S" and xs = lines] .
  have e: "(map (line_board S) lines = []) = (lines = [])" by simp
  show ?thesis
    by (simp only: lines_to_serialized_example_def assms sum.case Let_def boards mvs counts
        ch e)
qed

lemma create_serialized_example_shape:
  "create_serialized_example s m r = Inr x \<Longrightarrow> example_moves x = m \<and> move_scores x = r"
  by (auto simp: create_serialized_example_def split: sum.splits)

lemma create_serialized_example_any:
  "create_serialized_example s m r = Inr x \<Longrightarrow> \<exists>x'. create_serialized_example s m' r' = Inr x'"
  by (auto simp: create_serialized_example_def split: sum.splits)

lemma map_raise_ok_iff:
  "(\<exists>ys. map_raise f xs = Inr ys) \<longleftrightarrow> (\<forall>x \<in> set xs. \<exists>y. f x = Inr y)"
  by (induction xs) (auto split: sum.splits)

lemma records_shape:
  assumes "map_raise (\<lambda>(b, m, r). create_serialized_example (g b) m r) xs = Inr recs"
  shows "map example_moves recs = map (\<lambda>(b, m, r). m) xs
       \<and> map move_scores recs = map (\<lambda>(b, m, r). r) xs"
  using assms
proof (induction xs arbitrary: recs)
  case Nil
  then show ?case by simp
next
  case (Cons x xs)
  obtain b m r where x: "x = (b, m, r)" by (cases x) auto
  from Cons.prems obtain y ys where y: "create_serialized_example (g b) m r = Inr y"
    and ys: "map_raise (\<lambda>(b, m, r). create_serialized_example (g b) m r) xs = Inr ys"
    and recs: "recs = y # ys"
    by (auto simp: x split: sum.splits)
  show ?case
    using Cons.IH [OF ys] create_serialized_example_shape [OF y] by (simp add: recs x)
qed

lemma zip3_maps:
  assumes "length ms = length bs" and "length rs = length bs"
  shows "map (\<lambda>(b, m, r). m) (zip bs (zip ms rs)) = ms
       \<and> map (\<lambda>(b, m, r). r) (zip bs (zip ms rs)) = rs"
  using assms
proof (induction bs arbitrary: ms rs)
  case Nil
  then show ?case by simp
next
  case (Cons b bs)
  then obtain m ms' r rs' where "ms = m # ms'" "rs = r # rs'"
    by (cases ms; cases rs) auto
  with Cons show ?case by simp
qed

lemma records_any_scores:
  assumes "map_raise (\<lambda>(b, m, r). create_serialized_example (g b) m r) (zip bs (zip ms rs))
     = Inr recs"
    and "length rs' = length rs"
  shows "\<exists>recs'. map_raise (\<lambda>(b, m, r). create_serialized_example (g b) m r)
                     (zip bs (zip ms rs')) = Inr recs'"
  using assms
proof (induction bs arbitrary: ms rs rs' recs)
  case Nil
  show ?case by simp
next
  case (Cons b bs)
  show ?case
  proof (cases ms)
    case Nil
    then show ?thesis by simp
  next
    case ms: (Cons m ms')
    show ?thesis
    proof (cases rs)
      case Nil
      with Cons.prems(2) show ?thesis by simp
    next
      case rs: (Cons r rs0)
      with Cons.prems(2) obtain r' rs0' where rs': "rs' = r' # rs0'" "length rs0' = length rs0"
        by (cases rs') auto
      from Cons.prems(1) obtain y ys
        where y: "create_serialized_example (g b) m r = Inr y"
          and ys: "map_raise (\<lambda>(b, m, r). create_serialized_example (g b) m r)
                     (zip bs (zip ms' rs0)) = Inr ys"
        by (auto simp: ms rs split: sum.splits)
      from create_serialized_example_any [OF y] obtain y'
        where "create_serialized_example (g b) m r' = Inr y'" by blast
      moreover from Cons.IH [OF ys rs'(2)] obtain ys'
        where "map_raise (\<lambda>(b, m, r). create_serialized_example (g b) m r)
                     (zip bs (zip ms' rs0')) = Inr ys'" by blast
      ultimately show ?thesis by (simp add: ms rs')
    qed
  qed
qed

lemma length_np_split_cumsum:
  "ns \<noteq> [] \<Longrightarrow> length (np_split ary (butlast (cumsum ns))) = length ns"
  by (simp add: np_split_split_from length_split_from cumsum_def length_cumsum_from)

lemma concat_np_split_cumsum: "concat (np_split ary (butlast (cumsum ns))) = ary"
proof -
  have "sorted (0 # cumsum_from 0 ns)" by (rule sorted_cumsum_from)
  then have "sorted (butlast (0 # cumsum_from 0 ns))" by (rule sorted_butlast_list)
  then have "sorted (0 # butlast (cumsum_from 0 ns))"
    by (cases "cumsum_from 0 ns = []") simp_all
  then show ?thesis
    using concat_split_from_sorted [of 0 "butlast (cumsum_from 0 ns)" ary]
    by (simp add: np_split_split_from cumsum_def)
qed

lemma np_split_cumsum_slices:
  assumes "ns \<noteq> []" and "length ary = sum_list ns"
  shows "np_split ary (butlast (cumsum ns)) = slices ns ary"
  using split_from_cumsum [of ns ary 0] assms
  by (simp add: np_split_split_from cumsum_def)

lemma batch_success:
  assumes "lines_to_serialized_example S lines = Inr recs"
  shows "\<exists>fens the_moves.
      map_raise (\<lambda>line. make_fen_white (line_to_fen_fn S line)) lines = Inr fens
    \<and> lines \<noteq> []
    \<and> map_raise (lookup_move (move_to_str_dict S))
         (concat (map (\<lambda>line. generate_legal_moves S (line_board S line)) lines))
        = Inr the_moves
    \<and> map_raise
         (\<lambda>(b, m, r). create_serialized_example (database_board_representation S b) m r)
         (zip (map (line_board S) lines)
            (zip (np_split the_moves (butlast (cumsum (move_counts S lines))))
                 (np_split (node_batch_eval_fn S (children_of S lines))
                    (butlast (cumsum (move_counts S lines))))))
        = Inr recs"
proof (cases "map_raise (\<lambda>line. make_fen_white (line_to_fen_fn S line)) lines")
  case (Inl e)
  with assms show ?thesis by (simp add: lines_to_serialized_example_def)
next
  case (Inr fens)
  from assms show ?thesis
    unfolding batch_unfold [OF Inr] using Inr
    by (auto split: if_splits sum.splits)
qed

lemma sum_list_move_counts:
  "length (concat (map (\<lambda>line. generate_legal_moves S (line_board S line)) lines))
     = sum_list (move_counts S lines)"
  by (simp add: move_counts_def length_concat comp_def)

lemma length_children_of: "length (children_of S lines) = sum_list (move_counts S lines)"
  by (simp add: children_of_def move_counts_def length_concat comp_def)

text \<open>
  Claim C5, as amended. The batch function never looks at the length of the score
  sequence the evaluator returns. When a batch succeeds, it has one record for each
  line, in order; the flat score sequence is split at the cumulative counts of legal
  moves whatever its length, the slices together being the whole sequence; and with any
  other evaluator, whatever the number of scores it returns, the batch succeeds as well.
  When the number of scores equals the number of children submitted, the slice of each
  line has as many scores as the line has legal moves.
\<close>

theorem score_split:
  assumes "lines_to_serialized_example S lines = Inr recs"
  shows "length recs = length lines
    \<and> map (\<lambda>x. length (example_moves x)) recs = move_counts S lines
    \<and> length (children_of S lines) = sum_list (move_counts S lines)
    \<and> map move_scores recs
        = np_split (node_batch_eval_fn S (children_of S lines))
            (butlast (cumsum (move_counts S lines)))
    \<and> concat (map move_scores recs) = node_batch_eval_fn S (children_of S lines)
    \<and> (length (node_batch_eval_fn S (children_of S lines)) = sum_list (move_counts S lines)
         \<longrightarrow> map move_scores recs
               = slices (move_counts S lines) (node_batch_eval_fn S (children_of S lines))
           \<and> map (\<lambda>x. length (move_scores x)) recs = move_counts S lines)
    \<and> (\<forall>e. \<exists>recs'.
           lines_to_serialized_example (S\<lparr>node_batch_eval_fn := e\<rparr>) lines = Inr recs'
         \<and> map move_scores recs'
             = np_split (e (children_of S lines)) (butlast (cumsum (move_counts S lines))))"
proof -
  let ?idx = "butlast (cumsum (move_counts S lines))"
  let ?scores = "node_batch_eval_fn S (children_of S lines)"
  let ?f = "\<lambda>(b, m, r). create_serialized_example (database_board_representation S b) m r"
  from batch_success [OF assms] obtain fens the_moves
    where fens: "map_raise (\<lambda>line. make_fen_white (line_to_fen_fn S line)) lines = Inr fens"
      and ne: "lines \<noteq> []"
      and mv: "map_raise (lookup_move (move_to_str_dict S))
         (concat (map (\<lambda>line. generate_legal_moves S (line_board S line)) lines))
        = Inr the_moves"
      and run: "map_raise ?f
         (zip (map (line_board S) lines) (zip (np_split the_moves ?idx) (np_split ?scores ?idx)))
        = Inr recs"
    by blast
  have cne: "move_counts S lines \<noteq> []" using ne by (simp add: move_counts_def)
  have K: "length (move_counts S lines) = length lines" by (simp add: move_counts_def)
  have lm: "length (np_split the_moves ?idx) = length (map (line_board S) lines)"
    and ls: "length (np_split ?scores ?idx) = length (map (line_board S) lines)"
    by (simp_all add: length_np_split_cumsum [OF cne] K)
  from records_shape [OF run] zip3_maps [OF lm ls]
  have em: "map example_moves recs = np_split the_moves ?idx"
    and ms: "map move_scores recs = np_split ?scores ?idx"
    by simp_all
  have len: "length recs = length lines"
    using ms ls by (metis length_map)
  have "length the_moves = sum_list (move_counts S lines)"
    using map_raise_length [OF mv] by (simp add: sum_list_move_counts)
  then have "np_split the_moves ?idx = slices (move_counts S lines) the_moves"
    "sum_list (move_counts S lines) \<le> length the_moves"
    using np_split_cumsum_slices [OF cne] by simp_all
  then have "map length (map example_moves recs) = move_counts S lines"
    using em slices_lengths by metis
  then have a: "map (\<lambda>x. length (example_moves x)) recs = move_counts S lines"
    by (simp add: comp_def)
  have c: "concat (map move_scores recs) = ?scores"
    by (simp add: ms concat_np_split_cumsum)
  have d: "length ?scores = sum_list (move_counts S lines)
         \<longrightarrow> map move_scores recs = slices (move_counts S lines) ?scores
           \<and> map (\<lambda>x. length (move_scores x)) recs = move_counts S lines"
  proof
    assume l: "length ?scores = sum_list (move_counts S lines)"
    have s: "map move_scores recs = slices (move_counts S lines) ?scores"
      using np_split_cumsum_slices [OF cne l] ms by simp
    have "map length (slices (move_counts S lines) ?scores) = move_counts S lines"
      using slices_lengths [of "move_counts S lines" ?scores] l by simp
    then have "map length (map move_scores recs) = move_counts S lines"
      by (simp only: s)
    then have ml: "map (\<lambda>x. length (move_scores x)) recs = move_counts S lines"
      by (simp add: comp_def)
    show "map move_scores recs = slices (move_counts S lines) ?scores
           \<and> map (\<lambda>x. length (move_scores x)) recs = move_counts S lines"
      using s ml by blast
  qed
  have e: "\<exists>recs'.
           lines_to_serialized_example (S\<lparr>node_batch_eval_fn := e\<rparr>) lines = Inr recs'
         \<and> map move_scores recs' = np_split (e (children_of S lines)) ?idx" for e
  proof -
    let ?S = "S\<lparr>node_batch_eval_fn := e\<rparr>"
    have same: "line_board ?S = line_board S" "move_counts ?S lines = move_counts S lines"
      "children_of ?S lines = children_of S lines"
      by (simp_all add: line_board_def move_counts_def children_of_def fun_eq_iff)
    have fens': "map_raise (\<lambda>line. make_fen_white (line_to_fen_fn ?S line)) lines = Inr fens"
      using fens by simp
    have le: "length (np_split (e (children_of S lines)) ?idx) = length (np_split ?scores ?idx)"
      by (simp add: length_np_split_cumsum [OF cne])
    from records_any_scores [OF run le] obtain recs'
      where run': "map_raise ?f
         (zip (map (line_board S) lines)
            (zip (np_split the_moves ?idx) (np_split (e (children_of S lines)) ?idx)))
        = Inr recs'"
      by blast
    have ls': "length (np_split (e (children_of S lines)) ?idx) = length (map (line_board S) lines)"
      by (simp add: length_np_split_cumsum [OF cne] K)
    from records_shape [OF run'] zip3_maps [OF lm ls']
    have ms': "map move_scores recs' = np_split (e (children_of S lines)) ?idx" by simp
    have "lines_to_serialized_example ?S lines = Inr recs'"
      unfolding batch_unfold [OF fens'] same using ne mv run' by simp
    with ms' show ?thesis by blast
  qed
  show ?thesis using len a length_children_of [of S lines] ms c d e by blast
qed

lemma map_raise_const:
  "\<forall>j < n. f j = Inr c \<Longrightarrow> map_raise f [0..<n] = Inr (replicate n c)"
proof (induction n)
  case 0
  show ?case by simp
next
  case (Suc n)
  then have "map_raise f [0..<n] = Inr (replicate n c)" "f n = Inr c" by simp_all
  then show ?case by (simp add: map_raise_append replicate_append_same)
qed

lemma toy_example:
  "create_serialized_example (replicate 64 CHR ''0'') m r
     = Inr (SequenceExample (replicate 64 0) m r)"
proof -
  have "char_to_index_dict CHR ''0'' = Inr 0" by (simp add: char_to_index_dict_def)
  then have "map_raise (\<lambda>j. if j < length (replicate 64 CHR ''0'')
                               then char_to_index_dict (replicate 64 CHR ''0'' ! j)
                               else Inl IndexError) [0..<64]
      = Inr (replicate 64 0)"
    by (intro map_raise_const) simp
  then show ?thesis by (simp only: create_serialized_example_def sum.case)
qed

lemma toy_white:
  "make_fen_white ''3 w'' = Inr ''3 w''" "make_fen_white ''0 w'' = Inr ''0 w''"
  "make_fen_white ''2 w'' = Inr ''2 w''"
  by (simp_all add: make_fen_white_def split_ws_def is_space_def)

lemma toy_batch:
  "lines_to_serialized_example (toy_scoring_env e) [''3 w'', ''0 w'', ''2 w'']
     = Inr [SequenceExample (replicate 64 0) [0, 1, 2]
              (take 3 (e [''3 w'', ''3 w'', ''3 w'', ''2 w'', ''2 w''])),
            SequenceExample (replicate 64 0) [] [],
            SequenceExample (replicate 64 0) [0, 1]
              (drop 3 (e [''3 w'', ''3 w'', ''3 w'', ''2 w'', ''2 w'']))]"
  by (simp add: lines_to_serialized_example_def toy_scoring_env_def toy_white cumsum_def
      lookup_move_def toy_example np_split_def upt_rec Let_def numeral_2_eq_2 numeral_3_eq_3)

lemma toy_counts:
  "move_counts (toy_scoring_env e) [''3 w'', ''0 w'', ''2 w''] = [3, 0, 2]"
  "children_of (toy_scoring_env e) [''3 w'', ''0 w'', ''2 w'']
     = [''3 w'', ''3 w'', ''3 w'', ''2 w'', ''2 w'']"
  by (simp_all add: move_counts_def children_of_def line_board_def toy_scoring_env_def
      toy_white upt_rec)

text \<open>
  The claim as stated fails when the evaluator returns too few scores. Three lines with
  3, 0 and 2 legal moves submit 5 children; with an evaluator that returns 4 scores the
  batch does not fail: the three records are produced, and the last line, with 2 legal
  moves, is given a single score.
\<close>

theorem score_split_counterexample:
  "length (children_of (toy_scoring_env (\<lambda>cs. [10, 11, 12, 13])) [''3 w'', ''0 w'', ''2 w''])
     = 5
   \<and> length (node_batch_eval_fn (toy_scoring_env (\<lambda>cs. [10, 11, 12, 13]))
        (children_of (toy_scoring_env (\<lambda>cs. [10, 11, 12, 13])) [''3 w'', ''0 w'', ''2 w'']))
     = 4
   \<and> lines_to_serialized_example (toy_scoring_env (\<lambda>cs. [10, 11, 12, 13]))
        [''3 w'', ''0 w'', ''2 w'']
      = Inr [SequenceExample (replicate 64 0) [0, 1, 2] [10, 11, 12],
             SequenceExample (replicate 64 0) [] [],
             SequenceExample (replicate 64 0) [0, 1] [13]]"
proof -
  have "node_batch_eval_fn (toy_scoring_env (\<lambda>cs. [10, 11, 12, 13])) = (\<lambda>cs. [10, 11, 12, 13])"
    by (simp add: toy_scoring_env_def)
  then show ?thesis by (simp add: toy_batch toy_counts)
qed

theorem score_split_witness:
  "lines_to_serialized_example (toy_scoring_env (\<lambda>cs. [10, 11, 12, 13, 14]))
        [''3 w'', ''0 w'', ''2 w'']
      = Inr [SequenceExample (replicate 64 0) [0, 1, 2] [10, 11, 12],
             SequenceExample (replicate 64 0) [] [],
             SequenceExample (replicate 64 0) [0, 1] [13, 14]]
   \<and> move_counts (toy_scoring_env (\<lambda>cs. [10, 11, 12, 13, 14])) [''3 w'', ''0 w'', ''2 w'']
        = [3, 0, 2]
   \<and> length (children_of (toy_scoring_env (\<lambda>cs. [10, 11, 12, 13, 14]))
        [''3 w'', ''0 w'', ''2 w'']) = 5
   \<and> map (\<lambda>x. length (move_scores x))
        [SequenceExample (replicate 64 0) [0, 1, 2] [10, 11, 12 :: nat],
         SequenceExample (replicate 64 0) [] [],
         SequenceExample (replicate 64 0) [0, 1] [13, 14]]
        = move_counts (toy_scoring_env (\<lambda>cs. [10, 11, 12, 13, 14])) [''3 w'', ''0 w'', ''2 w'']"
proof -
  let ?S = "toy_scoring_env (\<lambda>cs. [10, 11, 12, 13, 14])"
  let ?lines = "[''3 w'', ''0 w'', ''2 w'']"
  let ?recs = "[SequenceExample (replicate 64 0) [0, 1, 2] [10, 11, 12 :: nat],
                SequenceExample (replicate 64 0) [] [],
                SequenceExample (replicate 64 0) [0, 1] [13, 14]]"
  have run: "lines_to_serialized_example ?S ?lines = Inr ?recs"
    by (simp add: toy_batch)
  have "node_batch_eval_fn ?S = (\<lambda>cs. [10, 11, 12, 13, 14])"
    by (simp add: toy_scoring_env_def)
  then have len: "length (node_batch_eval_fn ?S (children_of ?S ?lines))
               = sum_list (move_counts ?S ?lines)"
    by (simp add: toy_counts)
  from score_split [OF run] len
  have "map (\<lambda>x. length (move_scores x)) ?recs = move_counts ?S ?lines" by blast
  with run show ?thesis by (simp add: toy_counts)
qed

subsection \<open>The batches submitted\<close>

lemma submit_loop_short:
  assumes "0 < bs" and "index = 0 \<or> index mod bs \<noteq> 0"
    and "index mod bs + length rest \<le> bs"
  shows "submit_loop bs index lines rest = []"
  using assms(2,3)
proof (induction rest arbitrary: index lines)
  case Nil
  show ?case by simp
next
  case (Cons line rest)
  have no: "\<not> (index mod bs = 0 \<and> index \<noteq> 0)" using Cons.prems(1) by auto
  show ?case
  proof (cases rest)
    case Nil
    with no show ?thesis by simp
  next
    case (Cons l ls)
    with Cons.prems(2) have lt: "Suc (index mod bs) < bs" by simp
    then have m: "Suc index mod bs = Suc (index mod bs)" by (simp add: mod_Suc)
    have "submit_loop bs (Suc index) (lines @ [line]) rest = []"
      using Cons.IH [of "Suc index" "lines @ [line]"] Cons.prems(2) m by simp
    with no show ?thesis by simp
  qed
qed

lemma submit_loop_fill:
  assumes "0 < bs" and "index = 0 \<or> index mod bs \<noteq> 0"
    and "index mod bs + length pre = bs"
  shows "submit_loop bs index lines (pre @ line # rest)
     = (lines @ pre @ [line]) # submit_loop bs (Suc (index + length pre)) [] rest"
  using assms(2,3)
proof (induction pre arbitrary: index lines)
  case Nil
  then have "index mod bs = bs" by simp
  with assms(1) show ?case by (metis mod_less_divisor less_irrefl)
next
  case (Cons p pre)
  have no: "\<not> (index mod bs = 0 \<and> index \<noteq> 0)" using Cons.prems(1) by auto
  show ?case
  proof (cases pre)
    case Nil
    with Cons.prems(2) have "Suc (index mod bs) = bs" by simp
    then have "Suc index mod bs = 0" by (simp add: mod_Suc)
    with no Nil show ?thesis by simp
  next
    case c: (Cons q qs)
    with Cons.prems(2) have lt: "Suc (index mod bs) < bs" by simp
    then have m: "Suc index mod bs = Suc (index mod bs)" by (simp add: mod_Suc)
    have "submit_loop bs (Suc index) (lines @ [p]) (pre @ line # rest)
      = ((lines @ [p]) @ pre @ [line]) # submit_loop bs (Suc (Suc index + length pre)) [] rest"
      using Cons.IH [of "Suc index" "lines @ [p]"] Cons.prems(2) m by simp
    with no show ?thesis by simp
  qed
qed

lemma submit_loop_first_batch:
  assumes "200 < length file_lines" and "length file_lines \<le> 400"
  shows "submit_loop 200 0 [] file_lines = [take 201 file_lines]"
proof -
  let ?pre = "take 200 file_lines"
  let ?rest = "drop 201 file_lines"
  have split: "file_lines = ?pre @ file_lines ! 200 # ?rest"
    using assms(1) by (metis id_take_nth_drop Suc_eq_plus1 numeral_plus_one semiring_norm(5)
        semiring_norm(8) One_nat_def add.commute plus_1_eq_Suc)
  have t: "take 201 file_lines = ?pre @ [file_lines ! 200]"
    using assms(1) by (metis take_Suc_conv_app_nth Suc_eq_plus1 numeral_plus_one
        semiring_norm(5) semiring_norm(8) One_nat_def add.commute plus_1_eq_Suc)
  have l: "length ?pre = 200" using assms(1) by (simp add: min_def)
  have "submit_loop 200 0 [] (?pre @ file_lines ! 200 # ?rest)
      = ([] @ ?pre @ [file_lines ! 200]) # submit_loop 200 (Suc (0 + length ?pre)) [] ?rest"
    by (rule submit_loop_fill) (use l in simp_all)
  moreover have "submit_loop 200 (Suc (0 + length ?pre)) [] ?rest = []"
    by (rule submit_loop_short) (use assms l in simp_all)
  ultimately show ?thesis using split t by simp
qed

text \<open>
  Claim C6. The loop submits a batch only at a line whose index is a multiple of 200
  other than 0, and nothing follows the loop to submit the lines collected after the
  last such index. So a file of at most 200 lines gives no batch and no record at all,
  whatever the environment, where the claim has one record for each line.
\<close>

theorem short_file_no_records:
  assumes "length file_lines \<le> 200"
  shows "submit_loop 200 0 [] file_lines = []
       \<and> generate_database_with_child_values_tf_records S file_lines = Inr []"
proof -
  have "submit_loop 200 0 [] file_lines = []"
    by (rule submit_loop_short) (use assms in simp_all)
  then show ?thesis by (simp add: generate_database_with_child_values_tf_records_def)
qed

theorem short_file_no_records_witness:
  "length [''3 w'', ''0 w'', ''2 w''] \<le> 200
   \<and> generate_database_with_child_values_tf_records
        (toy_scoring_env (\<lambda>cs. [10, 11, 12, 13, 14])) [''3 w'', ''0 w'', ''2 w'']
      = Inr []
   \<and> lines_to_serialized_example (toy_scoring_env (\<lambda>cs. [10, 11, 12, 13, 14]))
        [''3 w'', ''0 w'', ''2 w'']
      = Inr [SequenceExample (replicate 64 0) [0, 1, 2] [10, 11, 12],
             SequenceExample (replicate 64 0) [] [],
             SequenceExample (replicate 64 0) [0, 1] [13, 14]]"
proof -
  have "length [''3 w'', ''0 w'', ''2 w''] \<le> 200" by simp
  from short_file_no_records [OF this, of "toy_scoring_env (\<lambda>cs. [10, 11, 12, 13, 14])"]
  show ?thesis by (simp add: toy_batch)
qed

end
